theory Spec2Isabelle
  imports Complex_Main "HOL-Library.Word"
begin

section \<open>Geometry of Go's image package\<close>

text \<open>
  The source works on \<open>image.Point\<close> and \<open>image.Rectangle\<close> of Go's standard library.
  Go's \<open>int\<close> is modelled by \<open>int\<close>: coordinates are taken to stay inside the machine
  range, so no addition of two coordinates wraps around.
\<close>

record Point =
  X :: int
  Y :: int

record Rectangle =
  Min_pt :: Point
  Max_pt :: Point

definition Pt :: "int \<Rightarrow> int \<Rightarrow> Point" where
  "Pt x y = \<lparr>X = x, Y = y\<rparr>"

definition ZR :: Rectangle where
  "ZR = \<lparr>Min_pt = Pt 0 0, Max_pt = Pt 0 0\<rparr>"

definition Add_pt :: "Point \<Rightarrow> Point \<Rightarrow> Point" where
  "Add_pt p q = Pt (X p + X q) (Y p + Y q)"

definition Sub_pt :: "Point \<Rightarrow> Point \<Rightarrow> Point" where
  "Sub_pt p q = Pt (X p - X q) (Y p - Y q)"

definition In_rect :: "Point \<Rightarrow> Rectangle \<Rightarrow> bool" where
  "In_rect p r \<longleftrightarrow>
     X (Min_pt r) \<le> X p \<and> X p < X (Max_pt r) \<and> Y (Min_pt r) \<le> Y p \<and> Y p < Y (Max_pt r)"

definition Dx :: "Rectangle \<Rightarrow> int" where
  "Dx r = X (Max_pt r) - X (Min_pt r)"

definition Dy :: "Rectangle \<Rightarrow> int" where
  "Dy r = Y (Max_pt r) - Y (Min_pt r)"

definition Size_rect :: "Rectangle \<Rightarrow> Point" where
  "Size_rect r = Pt (X (Max_pt r) - X (Min_pt r)) (Y (Max_pt r) - Y (Min_pt r))"

definition Sub_rect :: "Rectangle \<Rightarrow> Point \<Rightarrow> Rectangle" where
  "Sub_rect r p =
     \<lparr>Min_pt = Pt (X (Min_pt r) - X p) (Y (Min_pt r) - Y p),
      Max_pt = Pt (X (Max_pt r) - X p) (Y (Max_pt r) - Y p)\<rparr>"

definition Empty :: "Rectangle \<Rightarrow> bool" where
  "Empty r \<longleftrightarrow> X (Min_pt r) \<ge> X (Max_pt r) \<or> Y (Min_pt r) \<ge> Y (Max_pt r)"

text \<open>
  \<open>Intersect\<close> raises the minimum and lowers the maximum, one coordinate after the
  other, and answers the zero rectangle when nothing is left.
\<close>

definition Intersect :: "Rectangle \<Rightarrow> Rectangle \<Rightarrow> Rectangle" where
  "Intersect r s =
     (let x0 = (if X (Min_pt r) < X (Min_pt s) then X (Min_pt s) else X (Min_pt r));
          y0 = (if Y (Min_pt r) < Y (Min_pt s) then Y (Min_pt s) else Y (Min_pt r));
          x1 = (if X (Max_pt r) > X (Max_pt s) then X (Max_pt s) else X (Max_pt r));
          y1 = (if Y (Max_pt r) > Y (Max_pt s) then Y (Max_pt s) else Y (Max_pt r));
          r' = \<lparr>Min_pt = Pt x0 y0, Max_pt = Pt x1 y1\<rparr>
      in if Empty r' then ZR else r')"

definition Overlaps :: "Rectangle \<Rightarrow> Rectangle \<Rightarrow> bool" where
  "Overlaps r s \<longleftrightarrow>
     \<not> Empty r \<and> \<not> Empty s \<and>
     X (Min_pt r) < X (Max_pt s) \<and> X (Min_pt s) < X (Max_pt r) \<and>
     Y (Min_pt r) < Y (Max_pt s) \<and> Y (Min_pt s) < Y (Max_pt r)"

text \<open>\<open>image.Rect\<close> swaps the coordinates of a rectangle given the wrong way round.\<close>

definition Rect :: "int \<Rightarrow> int \<Rightarrow> int \<Rightarrow> int \<Rightarrow> Rectangle" where
  "Rect x0 y0 x1 y1 =
     (let (xa, xb) = (if x0 > x1 then (x1, x0) else (x0, x1));
          (ya, yb) = (if y0 > y1 then (y1, y0) else (y0, y1))
      in \<lparr>Min_pt = Pt xa ya, Max_pt = Pt xb yb\<rparr>)"

text \<open>Go's integer division truncates towards zero.\<close>

definition quo :: "int \<Rightarrow> int \<Rightarrow> int" where
  "quo a b = sgn a * sgn b * (\<bar>a\<bar> div \<bar>b\<bar>)"


section \<open>Images and pixel buffers\<close>

type_synonym uint8 = "8 word"

text \<open>A colour of the non-premultiplied 8-bit model, \<open>color.NRGBA\<close>.\<close>

record NRGBA_color =
  cR :: uint8
  cG :: uint8
  cB :: uint8
  cA :: uint8

definition zero_color :: NRGBA_color where
  "zero_color = \<lparr>cR = 0, cG = 0, cB = 0, cA = 0\<rparr>"

text \<open>
  The interface \<open>image.Image\<close>: the bounds and the colour at a point. Colours are taken
  in the NRGBA model already; the conversion between colour models is outside the
  repository's file.
\<close>

record Image =
  Bounds :: Rectangle
  At :: "int \<Rightarrow> int \<Rightarrow> NRGBA_color"

text \<open>The buffer \<open>image.NRGBA\<close>: four bytes a pixel, rows \<open>Stride\<close> bytes apart.\<close>

record NRGBA =
  Pix :: "uint8 list"
  Stride :: int
  Rect_of :: Rectangle

datatype error = IndexOutOfRange | SliceBoundsOutOfRange

definition PixOffset :: "NRGBA \<Rightarrow> int \<Rightarrow> int \<Rightarrow> int" where
  "PixOffset p x y = (y - Y (Min_pt (Rect_of p))) * Stride p + (x - X (Min_pt (Rect_of p))) * 4"

text \<open>The colour held by the four bytes from offset \<open>i\<close> on.\<close>

definition color_at :: "uint8 list \<Rightarrow> nat \<Rightarrow> NRGBA_color" where
  "color_at px i = \<lparr>cR = px ! i, cG = px ! (i + 1), cB = px ! (i + 2), cA = px ! (i + 3)\<rparr>"

text \<open>
  \<open>NRGBAAt\<close> answers the zero colour outside the rectangle and reads the slice
  \<open>Pix[i : i+4]\<close> inside, which panics when the buffer is too short.
\<close>

definition NRGBAAt :: "NRGBA \<Rightarrow> int \<Rightarrow> int \<Rightarrow> error + NRGBA_color" where
  "NRGBAAt p x y =
     (if \<not> In_rect (Pt x y) (Rect_of p) then Inr zero_color
      else let i = PixOffset p x y
           in if 0 \<le> i \<and> i + 4 \<le> int (length (Pix p)) then Inr (color_at (Pix p) (nat i))
              else Inl SliceBoundsOutOfRange)"

text \<open>
  A buffer seen through the interface. Every reader below visits each point of the
  bounds, so a buffer too short for some point of its rectangle is a panic of the read;
  the check is made once, here.
\<close>

definition covers :: "NRGBA \<Rightarrow> bool" where
  "covers p \<longleftrightarrow>
     list_all (\<lambda>y. list_all (\<lambda>x. 0 \<le> PixOffset p x y \<and>
                                     PixOffset p x y + 4 \<le> int (length (Pix p)))
                              [X (Min_pt (Rect_of p)) .. X (Max_pt (Rect_of p)) - 1])
              [Y (Min_pt (Rect_of p)) .. Y (Max_pt (Rect_of p)) - 1]"

definition as_Image :: "NRGBA \<Rightarrow> error + Image" where
  "as_Image p =
     (if covers p
      then Inr \<lparr>Bounds = Rect_of p,
                At = (\<lambda>x y. if In_rect (Pt x y) (Rect_of p)
                             then color_at (Pix p) (nat (PixOffset p x y)) else zero_color)\<rparr>
      else Inl SliceBoundsOutOfRange)"

text \<open>
  \<open>SubImage\<close> shares the pixels from the first one of the intersection on; the slice
  \<open>Pix[i:]\<close> panics when \<open>i\<close> lies outside the buffer.
\<close>

definition SubImage :: "NRGBA \<Rightarrow> Rectangle \<Rightarrow> error + NRGBA" where
  "SubImage p r =
     (let r' = Intersect r (Rect_of p)
      in if Empty r' then Inr \<lparr>Pix = [], Stride = 0, Rect_of = ZR\<rparr>
         else let i = PixOffset p (X (Min_pt r')) (Y (Min_pt r'))
              in if 0 \<le> i \<and> i \<le> int (length (Pix p))
                 then Inr \<lparr>Pix = drop (nat i) (Pix p), Stride = Stride p, Rect_of = r'\<rparr>
                 else Inl SliceBoundsOutOfRange)"

definition channel :: "NRGBA_color \<Rightarrow> nat \<Rightarrow> uint8" where
  "channel c k = (if k = 0 then cR c else if k = 1 then cG c else if k = 2 then cB c else cA c)"

text \<open>
  Modelled from the spec: \<open>Clone\<close> is not in the file. The spec gives it as the
  primitive that produces an independent, zero-origin copy of an image's pixels, in a
  flat row-major buffer of four bytes a pixel, R, G, B, A. The copy is packed: the stride
  is four times the width. A rectangle whose maximum lies below its minimum holds no
  pixel.
\<close>

definition Clone :: "Image \<Rightarrow> NRGBA" where
  "Clone img =
     (let b = Bounds img; w = nat (Dx b); h = nat (Dy b)
      in \<lparr>Pix = map (\<lambda>k. channel (At img (X (Min_pt b) + int ((k div 4) mod w))
                                         (Y (Min_pt b) + int (k div (4 * w))))
                                 (k mod 4))
                     [0 ..< 4 * w * h],
          Stride = 4 * int w,
          Rect_of = \<lparr>Min_pt = Pt 0 0, Max_pt = Pt (int w) (int h)\<rparr>\<rparr>)"

text \<open>
  Modelled from the spec: \<open>toNRGBA\<close> is not in the file. The spec gives it as the
  primitive that normalises any image to the buffer model, whose origin is (0,0).
\<close>

definition toNRGBA :: "Image \<Rightarrow> NRGBA" where
  "toNRGBA img = Clone img"


section \<open>Crop\<close>

definition Crop :: "Image \<Rightarrow> Rectangle \<Rightarrow> error + NRGBA" where
  "Crop img rect =
     (let src = toNRGBA img;
          srcRect = Sub_rect rect (Min_pt (Bounds img))
      in case SubImage src srcRect of
           Inl e \<Rightarrow> Inl e
         | Inr sub \<Rightarrow> (case as_Image sub of Inl e \<Rightarrow> Inl e | Inr im \<Rightarrow> Inr (Clone im)))"

definition CropCenter :: "Image \<Rightarrow> int \<Rightarrow> int \<Rightarrow> error + NRGBA" where
  "CropCenter img width height =
     (let cropW = width; cropH = height;
          srcBounds = Bounds img;
          srcW = Dx srcBounds;
          srcH = Dy srcBounds;
          srcMinX = X (Min_pt srcBounds);
          srcMinY = Y (Min_pt srcBounds);
          centerX = srcMinX + quo srcW 2;
          centerY = srcMinY + quo srcH 2;
          x0 = centerX - quo cropW 2;
          y0 = centerY - quo cropH 2;
          x1 = x0 + cropW;
          y1 = y0 + cropH
      in Crop img (Rect x0 y0 x1 y1))"

text \<open>The rectangle \<open>CropTop\<close> hands to \<open>Crop\<close>.\<close>

definition CropTop_rect :: "Image \<Rightarrow> int \<Rightarrow> int \<Rightarrow> Rectangle" where
  "CropTop_rect img width height =
     (let cropW = width; cropH = height;
          srcBounds = Bounds img;
          srcW = Dx srcBounds;
          srcMinX = X (Min_pt srcBounds);
          centerX = srcMinX + quo srcW 2;
          x0 = centerX - quo cropW 2;
          y0 = 0;
          x1 = x0 + cropW;
          y1 = y0 + cropH
      in Rect x0 y0 x1 y1)"

definition CropTop :: "Image \<Rightarrow> int \<Rightarrow> int \<Rightarrow> error + NRGBA" where
  "CropTop img width height = Crop img (CropTop_rect img width height)"


section \<open>Paste\<close>

text \<open>
  \<open>copy(dst[i0 : i0+rowSize], src[j0 : j0+rowSize])\<close>: either slice expression panics
  when its bounds leave the buffer; otherwise \<open>rowSize\<close> bytes are written over.
\<close>

definition copy_row :: "uint8 list \<Rightarrow> int \<Rightarrow> uint8 list \<Rightarrow> int \<Rightarrow> int \<Rightarrow> error + uint8 list" where
  "copy_row d i0 s j0 rowSize =
     (if 0 \<le> i0 \<and> i0 \<le> i0 + rowSize \<and> i0 + rowSize \<le> int (length d) \<and>
         0 \<le> j0 \<and> j0 \<le> j0 + rowSize \<and> j0 + rowSize \<le> int (length s)
      then Inr (take (nat i0) d @ take (nat rowSize) (drop (nat j0) s) @ drop (nat (i0 + rowSize)) d)
      else Inl SliceBoundsOutOfRange)"

text \<open>The loop over the rows, counted down by the number of rows still to copy.\<close>

fun paste_rows :: "nat \<Rightarrow> int \<Rightarrow> int \<Rightarrow> int \<Rightarrow> uint8 list \<Rightarrow> int \<Rightarrow> int \<Rightarrow> uint8 list
                   \<Rightarrow> error + uint8 list" where
  "paste_rows 0 rowSize di dj s i0 j0 d = Inr d"
| "paste_rows (Suc n) rowSize di dj s i0 j0 d =
     (case copy_row d i0 s j0 rowSize of
        Inl e \<Rightarrow> Inl e
      | Inr d' \<Rightarrow> paste_rows n rowSize di dj s (i0 + di) (j0 + dj) d')"

definition Paste :: "Image \<Rightarrow> Image \<Rightarrow> Point \<Rightarrow> error + NRGBA" where
  "Paste background img pos =
     (let src = toNRGBA img;
          dst = Clone background;
          startPt = Sub_pt pos (Min_pt (Bounds background));
          endPt = Add_pt startPt (Size_rect (Rect_of src));
          pasteBounds = \<lparr>Min_pt = startPt, Max_pt = endPt\<rparr>
      in if Overlaps (Rect_of dst) pasteBounds
         then (let intersectBounds = Intersect (Rect_of dst) pasteBounds;
                   rowSize = Dx intersectBounds * 4;
                   numRows = Dy intersectBounds;
                   srcStartX = X (Min_pt intersectBounds) - X (Min_pt pasteBounds);
                   srcStartY = Y (Min_pt intersectBounds) - Y (Min_pt pasteBounds);
                   i0 = PixOffset dst (X (Min_pt intersectBounds)) (Y (Min_pt intersectBounds));
                   j0 = PixOffset src srcStartX srcStartY;
                   di = Stride dst;
                   dj = Stride src
               in case paste_rows (nat numRows) rowSize di dj (Pix src) i0 j0 (Pix dst) of
                    Inl e \<Rightarrow> Inl e
                  | Inr px \<Rightarrow> Inr (dst\<lparr>Pix := px\<rparr>))
         else Inr dst)"

definition PasteCenter :: "Image \<Rightarrow> Image \<Rightarrow> error + NRGBA" where
  "PasteCenter background img =
     (let bgBounds = Bounds background;
          bgW = Dx bgBounds;
          bgH = Dy bgBounds;
          bgMinX = X (Min_pt bgBounds);
          bgMinY = Y (Min_pt bgBounds);
          centerX = bgMinX + quo bgW 2;
          centerY = bgMinY + quo bgH 2;
          x0 = centerX - quo (Dx (Bounds img)) 2;
          y0 = centerY - quo (Dy (Bounds img)) 2
      in Paste background img (Pt x0 y0))"


section \<open>The type float64\<close>

text \<open>
  A \<open>float64\<close> is a NaN, an infinity, the negative zero, or a finite rational; \<open>Fin 0\<close>
  is the positive zero. Every operation computes the exact rational result and rounds it
  to the nearest binary64 value, ties to the even significand, as IEEE 754 prescribes.
\<close>

datatype f64 = NaN | PInf | NInf | NZero | Fin rat

text \<open>
  The exponent of the unit in the last place of a magnitude: the least \<open>e\<close> from
  \<open>-1074\<close> on with \<open>a < 2 ^ (e + 53)\<close>, none when \<open>a\<close> reaches \<open>2 ^ 1024\<close>.
\<close>

definition expo :: "rat \<Rightarrow> int option" where
  "expo a = List.find (\<lambda>e. a < 2 powi (e + 53)) [- 1074 .. 971]"

definition rhe :: "rat \<Rightarrow> int" where
  "rhe x = (let f = \<lfloor>x\<rfloor>; d = x - of_int f
            in if d < 1 / 2 then f else if d > 1 / 2 then f + 1
               else if even f then f else f + 1)"

text \<open>Rounding a magnitude; \<open>None\<close> is the overflow to infinity.\<close>

definition rnd_mag :: "rat \<Rightarrow> rat option" where
  "rnd_mag a =
     (case expo a of
        None \<Rightarrow> None
      | Some e \<Rightarrow> (let v = of_int (rhe (a / 2 powi e)) * 2 powi e
                   in if v < 2 ^ 1024 then Some v else None))"

text \<open>
  Rounding an exact result. An exact zero takes the sign the operation prescribes
  (\<open>neg\<close>); a result that rounds to zero keeps its own sign.
\<close>

definition round_s :: "bool \<Rightarrow> rat \<Rightarrow> f64" where
  "round_s neg q =
     (if q = 0 then (if neg then NZero else Fin 0)
      else if q > 0 then (case rnd_mag q of None \<Rightarrow> PInf | Some v \<Rightarrow> Fin v)
      else (case rnd_mag (- q) of
              None \<Rightarrow> NInf
            | Some v \<Rightarrow> if v = 0 then NZero else Fin (- v)))"

fun signbit :: "f64 \<Rightarrow> bool" where
  "signbit NInf = True"
| "signbit NZero = True"
| "signbit (Fin q) = (q < 0)"
| "signbit _ = False"

fun is_inf :: "f64 \<Rightarrow> bool" where
  "is_inf PInf = True"
| "is_inf NInf = True"
| "is_inf _ = False"

fun is_zero :: "f64 \<Rightarrow> bool" where
  "is_zero NZero = True"
| "is_zero (Fin q) = (q = 0)"
| "is_zero _ = False"

text \<open>The value of a finite float.\<close>

fun val :: "f64 \<Rightarrow> rat" where
  "val (Fin q) = q"
| "val _ = 0"

definition inf_of :: "bool \<Rightarrow> f64" where
  "inf_of neg = (if neg then NInf else PInf)"

definition zero_of :: "bool \<Rightarrow> f64" where
  "zero_of neg = (if neg then NZero else Fin 0)"

definition fneg :: "f64 \<Rightarrow> f64" where
  "fneg x = (case x of NaN \<Rightarrow> NaN | PInf \<Rightarrow> NInf | NInf \<Rightarrow> PInf | NZero \<Rightarrow> Fin 0
             | Fin q \<Rightarrow> if q = 0 then NZero else Fin (- q))"

definition fadd :: "f64 \<Rightarrow> f64 \<Rightarrow> f64" where
  "fadd x y =
     (if x = NaN \<or> y = NaN then NaN
      else if is_inf x then (if is_inf y \<and> x \<noteq> y then NaN else x)
      else if is_inf y then y
      else round_s (signbit x \<and> signbit y) (val x + val y))"

definition fsub :: "f64 \<Rightarrow> f64 \<Rightarrow> f64" where
  "fsub x y = fadd x (fneg y)"

definition fmul :: "f64 \<Rightarrow> f64 \<Rightarrow> f64" where
  "fmul x y =
     (if x = NaN \<or> y = NaN then NaN
      else if is_inf x \<or> is_inf y
      then (if is_zero x \<or> is_zero y then NaN else inf_of (signbit x \<noteq> signbit y))
      else round_s (signbit x \<noteq> signbit y) (val x * val y))"

definition fdiv :: "f64 \<Rightarrow> f64 \<Rightarrow> f64" where
  "fdiv x y =
     (if x = NaN \<or> y = NaN then NaN
      else if is_inf x then (if is_inf y then NaN else inf_of (signbit x \<noteq> signbit y))
      else if is_inf y then zero_of (signbit x \<noteq> signbit y)
      else if is_zero y
      then (if is_zero x then NaN else inf_of (signbit x \<noteq> signbit y))
      else round_s (signbit x \<noteq> signbit y) (val x / val y))"

text \<open>The fused multiply-add \<open>x * y + z\<close>, rounded once.\<close>

definition fma :: "f64 \<Rightarrow> f64 \<Rightarrow> f64 \<Rightarrow> f64" where
  "fma x y z =
     (if x = NaN \<or> y = NaN \<or> z = NaN then NaN
      else if is_inf x \<or> is_inf y
      then (if is_zero x \<or> is_zero y then NaN
            else if is_inf z \<and> z \<noteq> inf_of (signbit x \<noteq> signbit y) then NaN
            else inf_of (signbit x \<noteq> signbit y))
      else if is_inf z then z
      else round_s ((signbit x \<noteq> signbit y) \<and> signbit z) (val x * val y + val z))"

text \<open>The comparison \<open>x < y\<close>; a NaN compares false with everything.\<close>

definition flt :: "f64 \<Rightarrow> f64 \<Rightarrow> bool" where
  "flt x y =
     (if x = NaN \<or> y = NaN then False
      else if x = PInf \<or> y = NInf then False
      else if x = NInf \<or> y = PInf then True
      else val x < val y)"

text \<open>
  \<open>math.Max\<close> and \<open>math.Min\<close> of Go's library, with their special cases in the
  library's order: the infinity first, then NaN, then the two zeros.
\<close>

definition Max_f :: "f64 \<Rightarrow> f64 \<Rightarrow> f64" where
  "Max_f x y =
     (if x = PInf \<or> y = PInf then PInf
      else if x = NaN \<or> y = NaN then NaN
      else if is_zero x \<and> is_zero y then (if signbit x then y else x)
      else if flt y x then x else y)"

definition Min_f :: "f64 \<Rightarrow> f64 \<Rightarrow> f64" where
  "Min_f x y =
     (if x = NInf \<or> y = NInf then NInf
      else if x = NaN \<or> y = NaN then NaN
      else if is_zero x \<and> is_zero y then (if signbit x then x else y)
      else if flt x y then x else y)"

text \<open>The conversion \<open>float64(b)\<close> of a byte is exact.\<close>

definition byte_val :: "uint8 \<Rightarrow> rat" where
  "byte_val b = of_nat (unat b)"

definition float64 :: "uint8 \<Rightarrow> f64" where
  "float64 b = Fin (byte_val b)"

text \<open>
  Two points the language leaves to the implementation. The conversion \<open>uint8(f)\<close>
  discards the fraction; when the byte cannot hold the result (NaN, an infinity, a value
  outside 0..255) the conversion succeeds with an implementation-dependent byte,
  \<open>conv_oor\<close>. An implementation may also fuse \<open>x*y + z\<close> into one operation rounded
  once, on either product of a sum of two products; the three colour statements of
  \<open>Overlay\<close> have the same shape and take the same choice, \<open>fuse\<close>.
\<close>

datatype fusion = NoFusion | FuseFirst | FuseSecond

record platform =
  conv_oor :: "f64 \<Rightarrow> uint8"
  fuse :: fusion

definition trunc_rat :: "rat \<Rightarrow> int" where
  "trunc_rat q = (if q \<ge> 0 then \<lfloor>q\<rfloor> else \<lceil>q\<rceil>)"

definition to_uint8 :: "platform \<Rightarrow> f64 \<Rightarrow> uint8" where
  "to_uint8 pf f =
     (case f of
        Fin q \<Rightarrow> (if 0 \<le> trunc_rat q \<and> trunc_rat q \<le> 255 then word_of_int (trunc_rat q)
                  else conv_oor pf f)
      | NZero \<Rightarrow> 0
      | _ \<Rightarrow> conv_oor pf f)"

text \<open>The sum of two products \<open>a*b + c*d\<close>, as the platform computes it.\<close>

definition mul_add :: "platform \<Rightarrow> f64 \<Rightarrow> f64 \<Rightarrow> f64 \<Rightarrow> f64 \<Rightarrow> f64" where
  "mul_add pf a b c d =
     (case fuse pf of
        NoFusion \<Rightarrow> fadd (fmul a b) (fmul c d)
      | FuseFirst \<Rightarrow> fma a b (fmul c d)
      | FuseSecond \<Rightarrow> fma c d (fmul a b))"


section \<open>Overlay\<close>

text \<open>The first statement of \<open>Overlay\<close>: \<open>math.Min(math.Max(opacity, 0.0), 1.0)\<close>.\<close>

definition clamp_opacity :: "f64 \<Rightarrow> f64" where
  "clamp_opacity opacity = Min_f (Max_f opacity (Fin 0)) (Fin 1)"

text \<open>
  The body of the inner loop on the colours of the two pixels: \<open>d\<close> is the destination
  pixel before the four assignments, \<open>s\<close> the source pixel. Each assignment reads only
  the byte it writes and the two alpha values read before, so the four results depend on
  the old destination pixel alone. The three coefficients before the normalisation come
  first, under the names the source gives them.
\<close>

definition coef2_of :: "f64 \<Rightarrow> NRGBA_color \<Rightarrow> f64" where
  "coef2_of opacity s = fdiv (fmul opacity (float64 (cA s))) (Fin 255)"

definition coef1_of :: "f64 \<Rightarrow> NRGBA_color \<Rightarrow> NRGBA_color \<Rightarrow> f64" where
  "coef1_of opacity d s =
     fdiv (fmul (fsub (Fin 1) (coef2_of opacity s)) (float64 (cA d))) (Fin 255)"

definition coefSum_of :: "f64 \<Rightarrow> NRGBA_color \<Rightarrow> NRGBA_color \<Rightarrow> f64" where
  "coefSum_of opacity d s = fadd (coef1_of opacity d s) (coef2_of opacity s)"

definition blend :: "platform \<Rightarrow> f64 \<Rightarrow> NRGBA_color \<Rightarrow> NRGBA_color \<Rightarrow> NRGBA_color" where
  "blend pf opacity d s =
     (let a1 = float64 (cA d);
          a2 = float64 (cA s);
          coef2 = coef2_of opacity s;
          coef1 = coef1_of opacity d s;
          coefSum = coefSum_of opacity d s;
          coef1' = fdiv coef1 coefSum;
          coef2' = fdiv coef2 coefSum
      in \<lparr>cR = to_uint8 pf (mul_add pf (float64 (cR d)) coef1' (float64 (cR s)) coef2'),
          cG = to_uint8 pf (mul_add pf (float64 (cG d)) coef1' (float64 (cG s)) coef2'),
          cB = to_uint8 pf (mul_add pf (float64 (cB d)) coef1' (float64 (cB s)) coef2'),
          cA = to_uint8 pf (Min_f (fadd a1 (fdiv (fmul (fmul a2 opacity) (fsub (Fin 255) a1))
                                                 (Fin 255)))
                                  (Fin 255))\<rparr>)"

definition store_color :: "uint8 list \<Rightarrow> nat \<Rightarrow> NRGBA_color \<Rightarrow> uint8 list" where
  "store_color px i c = px[i := cR c, i + 1 := cG c, i + 2 := cB c, i + 3 := cA c]"

text \<open>
  One pass of the inner loop at \<open>(x, y)\<close>. The index expressions \<open>Pix[i+0] .. Pix[i+3]\<close>
  and \<open>Pix[j+0] .. Pix[j+3]\<close> panic outside their buffers.
\<close>

definition overlay_at :: "platform \<Rightarrow> f64 \<Rightarrow> int \<Rightarrow> NRGBA \<Rightarrow> Rectangle \<Rightarrow> int \<Rightarrow> int
                          \<Rightarrow> uint8 list \<Rightarrow> error + uint8 list" where
  "overlay_at pf opacity dstStride src pasteBounds y x dpix =
     (let i = y * dstStride + x * 4;
          srcX = x - X (Min_pt pasteBounds);
          srcY = y - Y (Min_pt pasteBounds);
          j = srcY * Stride src + srcX * 4
      in if 0 \<le> i \<and> i + 3 < int (length dpix) \<and> 0 \<le> j \<and> j + 3 < int (length (Pix src))
         then Inr (store_color dpix (nat i)
                     (blend pf opacity (color_at dpix (nat i)) (color_at (Pix src) (nat j))))
         else Inl IndexOutOfRange)"

text \<open>A loop over a range whose body may panic: the first panic ends it.\<close>

fun for_each :: "('a \<Rightarrow> 's \<Rightarrow> error + 's) \<Rightarrow> 'a list \<Rightarrow> 's \<Rightarrow> error + 's" where
  "for_each body [] st = Inr st"
| "for_each body (v # vs) st =
     (case body v st of Inl e \<Rightarrow> Inl e | Inr st' \<Rightarrow> for_each body vs st')"

definition Overlay :: "platform \<Rightarrow> Image \<Rightarrow> Image \<Rightarrow> Point \<Rightarrow> f64 \<Rightarrow> error + NRGBA" where
  "Overlay pf background img pos opacity0 =
     (let opacity = clamp_opacity opacity0;
          src = toNRGBA img;
          dst = Clone background;
          startPt = Sub_pt pos (Min_pt (Bounds background));
          endPt = Add_pt startPt (Size_rect (Rect_of src));
          pasteBounds = \<lparr>Min_pt = startPt, Max_pt = endPt\<rparr>
      in if Overlaps (Rect_of dst) pasteBounds
         then (let intersectBounds = Intersect (Rect_of dst) pasteBounds
               in case for_each
                         (\<lambda>y. for_each (overlay_at pf opacity (Stride dst) src pasteBounds y)
                                 [X (Min_pt intersectBounds) .. X (Max_pt intersectBounds) - 1])
                         [Y (Min_pt intersectBounds) .. Y (Max_pt intersectBounds) - 1]
                         (Pix dst) of
                    Inl e \<Rightarrow> Inl e
                  | Inr px \<Rightarrow> Inr (dst\<lparr>Pix := px\<rparr>))
         else Inr dst)"



section \<open>Images used as concrete inputs\<close>

text \<open>An image of one colour on a rectangle.\<close>

definition solid :: "Rectangle \<Rightarrow> NRGBA_color \<Rightarrow> Image" where
  "solid r c = \<lparr>Bounds = r, At = (\<lambda>x y. if In_rect (Pt x y) r then c else zero_color)\<rparr>"

definition rgba :: "uint8 \<Rightarrow> uint8 \<Rightarrow> uint8 \<Rightarrow> uint8 \<Rightarrow> NRGBA_color" where
  "rgba r g b a = \<lparr>cR = r, cG = g, cB = b, cA = a\<rparr>"

text \<open>A 10 by 10 image whose bounds start at (0,5).\<close>

definition shifted_image :: Image where
  "shifted_image = solid \<lparr>Min_pt = Pt 0 5, Max_pt = Pt 10 15\<rparr> (rgba 9 9 9 255)"

text \<open>A 2 by 2 image at the origin.\<close>

definition small_image :: Image where
  "small_image = solid \<lparr>Min_pt = Pt 0 0, Max_pt = Pt 2 2\<rparr> (rgba 0 0 255 255)"


text \<open>A 4 by 4 image of opaque red and a 2 by 2 image that holds no column.\<close>

definition red_image :: Image where
  "red_image = solid \<lparr>Min_pt = Pt 0 0, Max_pt = Pt 4 4\<rparr> (rgba 255 0 0 255)"


text \<open>A platform that does not fuse and converts every unrepresentable value to 0.\<close>

definition plain_platform :: platform where
  "plain_platform = \<lparr>conv_oor = (\<lambda>f. 0), fuse = NoFusion\<rparr>"


text \<open>An image of a single pixel at the origin.\<close>

definition one_pixel :: "NRGBA_color \<Rightarrow> Image" where
  "one_pixel c = solid \<lparr>Min_pt = Pt 0 0, Max_pt = Pt 1 1\<rparr> c"

text \<open>A platform that does not fuse and converts every unrepresentable value to 255.\<close>

definition saturating_platform :: platform where
  "saturating_platform = \<lparr>conv_oor = (\<lambda>f. 255), fuse = NoFusion\<rparr>"


section \<open>The rectangles named in the properties\<close>

text \<open>
  The paste rectangle and the intersection that \<open>Paste\<close> and \<open>Overlay\<close> compute, in
  the coordinates of the destination buffer.
\<close>

definition paste_bounds :: "Image \<Rightarrow> Image \<Rightarrow> Point \<Rightarrow> Rectangle" where
  "paste_bounds background img pos =
     (let startPt = Sub_pt pos (Min_pt (Bounds background));
          endPt = Add_pt startPt (Size_rect (Rect_of (toNRGBA img)))
      in \<lparr>Min_pt = startPt, Max_pt = endPt\<rparr>)"

definition intersect_bounds :: "Image \<Rightarrow> Image \<Rightarrow> Point \<Rightarrow> Rectangle" where
  "intersect_bounds background img pos =
     Intersect (Rect_of (Clone background)) (paste_bounds background img pos)"

text \<open>The pixel of the overlay image that lands on the point \<open>(x, y)\<close> of the destination.\<close>

definition overlay_pixel :: "Image \<Rightarrow> Image \<Rightarrow> Point \<Rightarrow> int \<Rightarrow> int \<Rightarrow> NRGBA_color" where
  "overlay_pixel background img pos x y =
     At img (X (Min_pt (Bounds img)) + (x - X (Min_pt (paste_bounds background img pos))))
            (Y (Min_pt (Bounds img)) + (y - Y (Min_pt (paste_bounds background img pos))))"

text \<open>The pixel of the background that the clone holds at \<open>(x, y)\<close>.\<close>

definition background_pixel :: "Image \<Rightarrow> int \<Rightarrow> int \<Rightarrow> NRGBA_color" where
  "background_pixel background x y =
     At background (X (Min_pt (Bounds background)) + x) (Y (Min_pt (Bounds background)) + y)"


section \<open>Properties\<close>

subsection \<open>Rectangles and indices\<close>

lemma idx_bound:
  fixes x y w h :: int
  assumes "0 \<le> x" "x < w" "0 \<le> y" "y < h"
  shows "y * (4 * w) + 4 * x + 4 \<le> 4 * w * h"
proof -
  have "y * (4 * w) \<le> (h - 1) * (4 * w)"
    using assms by (intro mult_right_mono) auto
  then show ?thesis using assms by (simp add: algebra_simps)
qed

lemma Intersect_cases:
  "Intersect r s = ZR \<or>
   (\<not> Empty (Intersect r s) \<and>
    X (Min_pt (Intersect r s)) = max (X (Min_pt r)) (X (Min_pt s)) \<and>
    Y (Min_pt (Intersect r s)) = max (Y (Min_pt r)) (Y (Min_pt s)) \<and>
    X (Max_pt (Intersect r s)) = min (X (Max_pt r)) (X (Max_pt s)) \<and>
    Y (Max_pt (Intersect r s)) = min (Y (Max_pt r)) (Y (Max_pt s)))"
  by (auto simp: Intersect_def Let_def Pt_def Empty_def ZR_def)

lemma Empty_ZR: "Empty ZR"
  by (simp add: Empty_def ZR_def Pt_def)

lemma Clone_fields:
  "Stride (Clone img) = 4 * int (nat (Dx (Bounds img)))"
  "Rect_of (Clone img) =
     \<lparr>Min_pt = Pt 0 0, Max_pt = Pt (int (nat (Dx (Bounds img)))) (int (nat (Dy (Bounds img))))\<rparr>"
  "length (Pix (Clone img)) = 4 * nat (Dx (Bounds img)) * nat (Dy (Bounds img))"
  by (simp_all add: Clone_def Let_def)

subsection \<open>Crop\<close>




text \<open>
  C7: \<open>CropTop\<close> sets \<open>y0\<close> to 0 whatever the bounds of the image are. On a 10 by 10
  image whose bounds start at (0,5) the rectangle handed to \<open>Crop\<close> starts at y = 0, not
  at the top edge y = 5, and the result is the empty buffer.
\<close>

theorem CropTop_ignores_origin:
  "Y (Min_pt (Bounds shifted_image)) = 5 \<and>
   CropTop_rect shifted_image 4 4 = \<lparr>Min_pt = Pt 3 0, Max_pt = Pt 7 4\<rparr> \<and>
   CropTop shifted_image 4 4 =
     Inr \<lparr>Pix = [], Stride = 0, Rect_of = \<lparr>Min_pt = Pt 0 0, Max_pt = Pt 0 0\<rparr>\<rparr>"
proof -
  have r: "CropTop_rect shifted_image 4 4 = \<lparr>Min_pt = Pt 3 0, Max_pt = Pt 7 4\<rparr>"
    by (simp add: CropTop_rect_def shifted_image_def solid_def Let_def Dx_def Pt_def quo_def Rect_def)
  have e: "Intersect (Sub_rect \<lparr>Min_pt = Pt 3 0, Max_pt = Pt 7 4\<rparr> (Min_pt (Bounds shifted_image)))
             (Rect_of (toNRGBA shifted_image)) = ZR"
    by (simp add: toNRGBA_def Clone_fields Intersect_def Sub_rect_def shifted_image_def solid_def
        Pt_def Empty_def Let_def Dx_def Dy_def)
  have c: "covers \<lparr>Pix = [], Stride = 0, Rect_of = ZR\<rparr>"
    by (simp add: covers_def ZR_def Pt_def)
  have "CropTop shifted_image 4 4 =
          Inr \<lparr>Pix = [], Stride = 0, Rect_of = \<lparr>Min_pt = Pt 0 0, Max_pt = Pt 0 0\<rparr>\<rparr>"
    unfolding CropTop_def r Crop_def Let_def SubImage_def e
    using c by (simp add: Empty_def as_Image_def Clone_def Let_def ZR_def Dx_def Dy_def Pt_def)
  then show ?thesis using r by (simp add: shifted_image_def solid_def Pt_def)
qed

subsection \<open>Copying rows\<close>






lemma div_mod_pixel:
  fixes sx sy w c :: nat
  assumes "sx < w" "c < 4"
  shows "(4 * (sy * w + sx) + c) div 4 mod w = sx"
    and "(4 * (sy * w + sx) + c) div (4 * w) = sy"
    and "(4 * (sy * w + sx) + c) mod 4 = c"
proof -
  define m where "m = sy * w + sx"
  have a: "(4 * m + c) div 4 = m" using assms by arith
  have m1: "m mod w = sx" and m2: "m div w = sy" using assms by (simp_all add: m_def)
  show "(4 * (sy * w + sx) + c) div 4 mod w = sx"
    unfolding m_def[symmetric] a by (rule m1)
  have "(4 * m + c) div (4 * w) = ((4 * m + c) div 4) div w"
    by (simp add: div_mult2_eq)
  then show "(4 * (sy * w + sx) + c) div (4 * w) = sy"
    unfolding m_def[symmetric] a by (simp add: m2)
  show "(4 * (sy * w + sx) + c) mod 4 = c"
    unfolding m_def[symmetric] using assms by arith
qed

lemma Clone_nth:
  fixes u v c :: int
  assumes "0 \<le> u" "u < Dx (Bounds img)" "0 \<le> v" "v < Dy (Bounds img)" "0 \<le> c" "c < 4"
  shows "Pix (Clone img) ! nat (v * (4 * int (nat (Dx (Bounds img)))) + 4 * u + c) =
         channel (At img (X (Min_pt (Bounds img)) + u) (Y (Min_pt (Bounds img)) + v)) (nat c)"
proof -
  let ?w = "nat (Dx (Bounds img))" and ?h = "nat (Dy (Bounds img))"
  have b: "nat u < ?w" "nat v < ?h" "nat c < 4" using assms by auto
  have i: "nat (v * (4 * int ?w) + 4 * u + c) = 4 * (nat v * ?w + nat u) + nat c"
    using assms by (simp add: nat_add_distrib nat_mult_distrib algebra_simps)
  have "nat v * ?w + nat u < (nat v + 1) * ?w" using b by simp
  also have "\<dots> \<le> ?h * ?w"
  proof (intro mult_le_mono1)
    show "nat v + 1 \<le> ?h" using b(2) by linarith
  qed
  finally have "nat v * ?w + nat u < ?w * ?h" by (simp add: mult.commute)
  then have lt: "4 * (nat v * ?w + nat u) + nat c < 4 * ?w * ?h" using b by simp
  have main: "Pix (Clone img) ! (4 * (nat v * ?w + nat u) + nat c) =
        channel (At img (X (Min_pt (Bounds img)) + int (nat u)) (Y (Min_pt (Bounds img)) + int (nat v))) (nat c)"
    unfolding Clone_def Let_def using lt
    by (simp only: NRGBA.simps nth_map length_upt nth_upt diff_zero add_0 div_mod_pixel[OF b(1) b(3)])
  show ?thesis unfolding i using main assms by simp
qed

subsection \<open>The overlap\<close>

lemma Overlaps_iff: "Overlaps r s \<longleftrightarrow> \<not> Empty (Intersect r s)"
  by (auto simp: Overlaps_def Intersect_def Let_def Empty_def Pt_def ZR_def)

lemma paste_bounds_fields:
  "X (Min_pt (paste_bounds bg img pos)) = X pos - X (Min_pt (Bounds bg))"
  "Y (Min_pt (paste_bounds bg img pos)) = Y pos - Y (Min_pt (Bounds bg))"
  "X (Max_pt (paste_bounds bg img pos)) = X pos - X (Min_pt (Bounds bg)) + int (nat (Dx (Bounds img)))"
  "Y (Max_pt (paste_bounds bg img pos)) = Y pos - Y (Min_pt (Bounds bg)) + int (nat (Dy (Bounds img)))"
  by (simp_all add: paste_bounds_def Let_def Sub_pt_def Add_pt_def Size_rect_def Pt_def
      toNRGBA_def Clone_fields)

text \<open>What an overlap says about the intersection, in one place.\<close>

lemma overlap_geometry:
  assumes ov: "Overlaps (Rect_of (Clone bg)) (paste_bounds bg img pos)"
  defines "ib \<equiv> intersect_bounds bg img pos"
  defines "pb \<equiv> paste_bounds bg img pos"
  shows "0 \<le> X (Min_pt ib)" "X (Min_pt ib) < X (Max_pt ib)" "X (Max_pt ib) \<le> Dx (Bounds bg)"
    "0 \<le> Y (Min_pt ib)" "Y (Min_pt ib) < Y (Max_pt ib)" "Y (Max_pt ib) \<le> Dy (Bounds bg)"
    "X (Min_pt pb) \<le> X (Min_pt ib)" "X (Max_pt ib) \<le> X (Min_pt pb) + Dx (Bounds img)"
    "Y (Min_pt pb) \<le> Y (Min_pt ib)" "Y (Max_pt ib) \<le> Y (Min_pt pb) + Dy (Bounds img)"
    "0 < Dx (Bounds bg)" "0 < Dy (Bounds bg)" "0 < Dx (Bounds img)" "0 < Dy (Bounds img)"
proof -
  have ne: "\<not> Empty ib" using ov by (simp add: Overlaps_iff ib_def intersect_bounds_def)
  have pos: "0 < Dx (Bounds bg)" "0 < Dy (Bounds bg)" "0 < Dx (Bounds img)" "0 < Dy (Bounds img)"
    using ov by (auto simp: Overlaps_def Empty_def Clone_fields Pt_def paste_bounds_fields
        split: if_splits)
  from ne Intersect_cases[of "Rect_of (Clone bg)" pb] Empty_ZR
  have f: "X (Min_pt ib) = max 0 (X (Min_pt pb))" "Y (Min_pt ib) = max 0 (Y (Min_pt pb))"
    "X (Max_pt ib) = min (Dx (Bounds bg)) (X (Max_pt pb))"
    "Y (Max_pt ib) = min (Dy (Bounds bg)) (Y (Max_pt pb))"
    using pos by (auto simp: ib_def pb_def intersect_bounds_def Clone_fields Pt_def)
  have mx: "X (Max_pt pb) = X (Min_pt pb) + Dx (Bounds img)"
    "Y (Max_pt pb) = Y (Min_pt pb) + Dy (Bounds img)"
    using pos by (simp_all add: pb_def paste_bounds_fields)
  from ne have lt: "X (Min_pt ib) < X (Max_pt ib)" "Y (Min_pt ib) < Y (Max_pt ib)"
    by (auto simp: Empty_def)
  show "0 \<le> X (Min_pt ib)" "X (Min_pt ib) < X (Max_pt ib)" "X (Max_pt ib) \<le> Dx (Bounds bg)"
    "0 \<le> Y (Min_pt ib)" "Y (Min_pt ib) < Y (Max_pt ib)" "Y (Max_pt ib) \<le> Dy (Bounds bg)"
    "X (Min_pt pb) \<le> X (Min_pt ib)" "X (Max_pt ib) \<le> X (Min_pt pb) + Dx (Bounds img)"
    "Y (Min_pt pb) \<le> Y (Min_pt ib)" "Y (Max_pt ib) \<le> Y (Min_pt pb) + Dy (Bounds img)"
    "0 < Dx (Bounds bg)" "0 < Dy (Bounds bg)" "0 < Dx (Bounds img)" "0 < Dy (Bounds img)"
    using f mx lt pos by auto
qed

text \<open>A point of the clone reads back as the pixel of the image.\<close>

lemma Clone_color:
  fixes u v :: int
  assumes "0 \<le> u" "u < Dx (Bounds img)" "0 \<le> v" "v < Dy (Bounds img)"
  shows "color_at (Pix (Clone img)) (nat (v * (4 * int (nat (Dx (Bounds img)))) + 4 * u)) =
         At img (X (Min_pt (Bounds img)) + u) (Y (Min_pt (Bounds img)) + v)"
proof -
  let ?i = "v * (4 * int (nat (Dx (Bounds img)))) + 4 * u"
  have i0: "0 \<le> ?i" using assms by simp
  let ?k = "At img (X (Min_pt (Bounds img)) + u) (Y (Min_pt (Bounds img)) + v)"
  have n: "nat ?i + 1 = nat (?i + 1)" "nat ?i + 2 = nat (?i + 2)" "nat ?i + 3 = nat (?i + 3)"
    using i0 by linarith+
  have c0: "Pix (Clone img) ! nat ?i = cR ?k"
    using Clone_nth[OF assms, of 0] by (simp add: channel_def)
  have c1: "Pix (Clone img) ! (nat ?i + 1) = cG ?k"
    unfolding n using Clone_nth[OF assms, of 1] by (simp add: channel_def)
  have c2: "Pix (Clone img) ! (nat ?i + 2) = cB ?k"
    unfolding n using Clone_nth[OF assms, of 2] by (simp add: channel_def)
  have c3: "Pix (Clone img) ! (nat ?i + 3) = cA ?k"
    unfolding n using Clone_nth[OF assms, of 3] by (simp add: channel_def)
  show ?thesis
    unfolding color_at_def c0 c1 c2 c3 by simp
qed

subsection \<open>Paste\<close>


text \<open>Reading a buffer that has the shape of the clone of an image.\<close>

lemma NRGBAAt_read:
  assumes "Rect_of d = Rect_of (Clone bg)" "Stride d = Stride (Clone bg)"
    and "length (Pix d) = length (Pix (Clone bg))"
    and "In_rect (Pt x y) (Rect_of (Clone bg))"
  shows "NRGBAAt d x y = Inr (color_at (Pix d) (nat (y * (4 * int (nat (Dx (Bounds bg)))) + 4 * x)))"
proof -
  let ?w = "int (nat (Dx (Bounds bg)))" and ?h = "int (nat (Dy (Bounds bg)))"
  have xy: "0 \<le> x" "x < ?w" "0 \<le> y" "y < ?h"
    using assms(4) by (auto simp: In_rect_def Clone_fields Pt_def)
  have o: "PixOffset d x y = y * (4 * ?w) + 4 * x"
    by (simp add: PixOffset_def assms(1,2) Clone_fields Pt_def)
  have l: "int (length (Pix d)) = 4 * ?w * ?h"
    by (simp add: assms(3) Clone_fields)
  have "0 \<le> y * (4 * ?w) + 4 * x" using xy by simp
  moreover have "y * (4 * ?w) + 4 * x + 4 \<le> 4 * ?w * ?h"
    using idx_bound[OF xy] .
  ultimately show ?thesis
    unfolding NRGBAAt_def Let_def o l using assms(4) by (simp add: assms(1))
qed

lemma Clone_At:
  assumes "In_rect (Pt x y) (Rect_of (Clone bg))"
  shows "NRGBAAt (Clone bg) x y = Inr (background_pixel bg x y)"
proof -
  have xy: "0 \<le> x" "x < Dx (Bounds bg)" "0 \<le> y" "y < Dy (Bounds bg)"
    using assms by (auto simp: In_rect_def Clone_fields Pt_def split: if_splits)
  show ?thesis
    using NRGBAAt_read[OF refl refl refl assms] Clone_color[OF xy]
    by (simp add: background_pixel_def)
qed

lemma no_overlap_intersect:
  "\<not> Overlaps r s \<Longrightarrow> \<not> In_rect p (Intersect r s)"
  using Intersect_cases[of r s]
  by (auto simp: Overlaps_iff In_rect_def Empty_def)



lemma red_small_geometry:
  "Rect_of (Clone red_image) = \<lparr>Min_pt = Pt 0 0, Max_pt = Pt 4 4\<rparr>"
  "paste_bounds red_image small_image (Pt 1 1) = \<lparr>Min_pt = Pt 1 1, Max_pt = Pt 3 3\<rparr>"
  "intersect_bounds red_image small_image (Pt 1 1) = \<lparr>Min_pt = Pt 1 1, Max_pt = Pt 3 3\<rparr>"
  by (simp_all add: intersect_bounds_def paste_bounds_fields Clone_fields red_image_def
      small_image_def solid_def Intersect_def Let_def Empty_def Dx_def Dy_def Pt_def
      paste_bounds_def Sub_pt_def Add_pt_def Size_rect_def toNRGBA_def)




subsection \<open>Rounding to binary64\<close>

lemma two_powi_pos: "(0::rat) < 2 powi e"
  by simp

lemma two_powi_mono: "e \<le> e' \<Longrightarrow> (2::rat) powi e \<le> 2 powi e'"
  by (rule power_int_increasing) simp_all

lemma find_upto_Some:
  assumes "List.find P [lo..hi] = Some e"
  shows "lo \<le> e" "e \<le> hi" "P e" "\<And>k. lo \<le> k \<Longrightarrow> k < e \<Longrightarrow> \<not> P k"
proof -
  from assms obtain i where i: "i < length [lo..hi]"
    and p: "P ([lo..hi] ! i)" and e: "e = [lo..hi] ! i"
    and m: "\<forall>j<i. \<not> P ([lo..hi] ! j)"
    unfolding find_Some_iff by blast
  have il: "lo + int i \<le> hi" using i by simp
  have ei: "e = lo + int i" using e il by simp
  show "lo \<le> e" "e \<le> hi" using ei il by auto
  show "P e" using p e by simp
  show "\<not> P k" if "lo \<le> k" "k < e" for k
  proof -
    have "nat (k - lo) < i" using that ei by linarith
    moreover have "[lo..hi] ! nat (k - lo) = k" using that ei il by simp
    ultimately show ?thesis using m by metis
  qed
qed

lemma find_upto_None:
  assumes "List.find P [lo..hi] = None" "lo \<le> k" "k \<le> hi"
  shows "\<not> P k"
  using assms unfolding find_None_iff by simp

lemma expo_Some:
  assumes "expo a = Some e"
  shows "- 1074 \<le> e" "e \<le> 971" "a < 2 powi (e + 53)" "e = - 1074 \<or> 2 powi (e + 52) \<le> a"
proof -
  note f = find_upto_Some[OF assms[unfolded expo_def]]
  show "- 1074 \<le> e" "e \<le> 971" "a < 2 powi (e + 53)" by (rule f)+
  show "e = - 1074 \<or> 2 powi (e + 52) \<le> a"
  proof (cases "e = - 1074")
    case False
    then have "- 1074 \<le> e - 1" "e - 1 < e" using f(1) by auto
    then have "\<not> a < 2 powi (e - 1 + 53)" by (rule f(4))
    moreover have "e - 1 + 53 = e + 52" by simp
    ultimately show ?thesis by simp
  qed simp
qed

lemma expo_least:
  assumes "expo a = Some e" "- 1074 \<le> k" "a < 2 powi (k + 53)"
  shows "e \<le> k"
proof (rule ccontr)
  assume "\<not> e \<le> k"
  then have ke: "k < e" by simp
  with expo_Some[OF assms(1)] assms(2) have "2 powi (e + 52) \<le> a" by auto
  moreover have "(2::rat) powi (k + 53) \<le> 2 powi (e + 52)" using ke by (intro two_powi_mono) simp
  ultimately show False using assms(3) by simp
qed

lemma expo_exists:
  assumes "a < 2 powi 1024"
  shows "\<exists>e. expo a = Some e"
proof (cases "expo a")
  case None
  have "\<not> a < 2 powi (971 + 53)"
    by (rule find_upto_None[OF None[unfolded expo_def]]) simp_all
  then show ?thesis using assms by simp
qed simp

lemma rhe_of_int: "rhe (of_int n) = n"
  by (simp add: rhe_def)

lemma rhe_mono:
  assumes "x \<le> y"
  shows "rhe x \<le> rhe y"
proof -
  have fl: "\<lfloor>x\<rfloor> \<le> \<lfloor>y\<rfloor>" using assms by (rule floor_mono)
  have bx: "of_int \<lfloor>x\<rfloor> \<le> x" "x < of_int \<lfloor>x\<rfloor> + 1" by linarith+
  have bys: "of_int \<lfloor>y\<rfloor> \<le> y" "y < of_int \<lfloor>y\<rfloor> + 1" by linarith+
  have ux: "rhe x \<le> \<lfloor>x\<rfloor> + 1" and ly: "\<lfloor>y\<rfloor> \<le> rhe y"
    by (simp_all add: rhe_def Let_def)
  show ?thesis
  proof (cases "\<lfloor>x\<rfloor> = \<lfloor>y\<rfloor>")
    case True
    then show ?thesis using assms by (auto simp: rhe_def Let_def)
  next
    case False
    then have "\<lfloor>x\<rfloor> + 1 \<le> \<lfloor>y\<rfloor>" using fl by simp
    then show ?thesis using ux ly by linarith
  qed
qed

lemma rhe_ge: "of_int n \<le> x \<Longrightarrow> n \<le> rhe x"
  using rhe_mono[of "of_int n" x] by (simp add: rhe_of_int)

lemma rhe_le: "x \<le> of_int n \<Longrightarrow> rhe x \<le> n"
  using rhe_mono[of x "of_int n"] by (simp add: rhe_of_int)

lemma rnd_mag_Some:
  "rnd_mag a = Some v \<longleftrightarrow>
     (\<exists>e. expo a = Some e \<and> v = of_int (rhe (a / 2 powi e)) * 2 powi e \<and> v < 2 powi 1024)"
  by (auto simp: rnd_mag_def Let_def split: option.splits)

lemma two_powi_split: "(2::rat) powi (e + int n) = 2 powi e * 2 ^ n"
  by (simp add: power_int_add)

lemma scaled_less:
  assumes "a < 2 powi (e + 53)"
  shows "a / 2 powi e < (2::rat) ^ 53"
proof -
  have "a < 2 powi e * 2 ^ 53" using assms two_powi_split[of e 53] by simp
  then show ?thesis by (simp add: field_simps)
qed

lemma scaled_ge:
  assumes "2 powi (e + 52) \<le> a"
  shows "(2::rat) ^ 52 \<le> a / 2 powi e"
proof -
  have "2 powi e * 2 ^ 52 \<le> a" using assms two_powi_split[of e 52] by simp
  then show ?thesis by (simp add: field_simps)
qed

lemma rhe_nonneg: "0 \<le> x \<Longrightarrow> 0 \<le> rhe x"
  using rhe_ge[of 0 x] by simp

lemma rnd_mag_nonneg:
  assumes "0 \<le> a" "rnd_mag a = Some v"
  shows "0 \<le> v"
proof -
  from assms(2) obtain e where v: "v = of_int (rhe (a / 2 powi e)) * 2 powi e"
    unfolding rnd_mag_Some by blast
  have "0 \<le> rhe (a / 2 powi e)" using assms(1) by (intro rhe_nonneg) simp
  then show ?thesis unfolding v by simp
qed

lemma rnd_mag_mono:
  assumes a0: "0 \<le> a" and ab: "a \<le> b" and rb: "rnd_mag b = Some vb"
  shows "\<exists>va. rnd_mag a = Some va \<and> va \<le> vb"
proof -
  from rb obtain eb where eb: "expo b = Some eb"
    and vb: "vb = of_int (rhe (b / 2 powi eb)) * 2 powi eb" and vbl: "vb < 2 powi 1024"
    unfolding rnd_mag_Some by blast
  note Eb = expo_Some[OF eb]
  have "b < 2 powi 1024"
  proof -
    have "(2::rat) powi (eb + 53) \<le> 2 powi 1024" using Eb(2) by (intro two_powi_mono) simp
    then show ?thesis using Eb(3) by simp
  qed
  then have "a < 2 powi 1024" using ab by simp
  then obtain ea where ea: "expo a = Some ea" using expo_exists by blast
  note Ea = expo_Some[OF ea]
  have le: "ea \<le> eb" using expo_least[OF ea Eb(1)] Eb(3) ab by simp
  define va where "va = of_int (rhe (a / 2 powi ea)) * (2::rat) powi ea"
  have "va \<le> vb"
  proof (cases "ea = eb")
    case True
    have "a / 2 powi eb \<le> b / 2 powi eb" using ab by (simp add: divide_right_mono)
    then have "rhe (a / 2 powi eb) \<le> rhe (b / 2 powi eb)" by (rule rhe_mono)
    then show ?thesis unfolding va_def vb True by (simp add: mult_right_mono)
  next
    case False
    then have lt: "ea < eb" using le by simp
    have "rhe (a / 2 powi ea) \<le> 2 ^ 53"
      using scaled_less[OF Ea(3)] by (intro rhe_le) simp
    then have "(of_int (rhe (a / 2 powi ea)) :: rat) \<le> 2 ^ 53"
      by (metis of_int_le_iff of_int_numeral of_int_power)
    then have "va \<le> 2 ^ 53 * 2 powi ea" unfolding va_def by (simp add: mult_right_mono)
    also have "\<dots> = 2 powi (ea + 53)" using two_powi_split[of ea 53] by simp
    also have "\<dots> \<le> 2 powi (eb + 52)" using lt by (intro two_powi_mono) simp
    finally have 1: "va \<le> 2 powi (eb + 52)" .
    have "eb \<noteq> - 1074" using lt Ea(1) by simp
    then have "2 powi (eb + 52) \<le> b" using Eb(4) by simp
    then have "(2::rat) ^ 52 \<le> b / 2 powi eb" by (rule scaled_ge)
    then have "2 ^ 52 \<le> rhe (b / 2 powi eb)" by (intro rhe_ge) simp
    then have "(2::rat) ^ 52 \<le> of_int (rhe (b / 2 powi eb))"
      by (metis of_int_le_iff of_int_numeral of_int_power)
    then have "2 ^ 52 * 2 powi eb \<le> vb" unfolding vb by (simp add: mult_right_mono)
    moreover have "(2::rat) ^ 52 * 2 powi eb = 2 powi (eb + 52)"
      using two_powi_split[of eb 52] by simp
    ultimately show ?thesis using 1 by simp
  qed
  moreover from this have "va < 2 powi 1024" using vbl by simp
  ultimately show ?thesis
    unfolding rnd_mag_Some using ea va_def by blast
qed

lemma rnd_mag_exact:
  assumes "0 \<le> m" "m < 2 ^ 53" "- 1074 \<le> k" "k \<le> 971"
  shows "rnd_mag (of_int m * 2 powi k) = Some (of_int m * 2 powi k)"
proof -
  let ?a = "of_int m * (2::rat) powi k"
  have "(of_int m :: rat) < 2 ^ 53" using assms(2)
    by (metis of_int_less_iff of_int_numeral of_int_power)
  then have "?a < 2 ^ 53 * 2 powi k" by (simp add: mult_strict_right_mono)
  also have "\<dots> = 2 powi (k + 53)" using two_powi_split[of k 53] by simp
  finally have ak: "?a < 2 powi (k + 53)" .
  have "(2::rat) powi (k + 53) \<le> 2 powi 1024" using assms(4) by (intro two_powi_mono) simp
  then have al: "?a < 2 powi 1024" using ak by simp
  then obtain e where e: "expo ?a = Some e" using expo_exists by blast
  have ek: "e \<le> k" using expo_least[OF e assms(3) ak] .
  have "(2::rat) powi k = 2 powi (e + int (nat (k - e)))" using ek by simp
  also have "\<dots> = 2 powi e * 2 ^ nat (k - e)" by (rule two_powi_split)
  finally have pk: "(2::rat) powi k = 2 powi e * 2 ^ nat (k - e)" .
  have "?a / 2 powi e = of_int (m * 2 ^ nat (k - e))"
    unfolding pk by simp
  then have "rhe (?a / 2 powi e) = m * 2 ^ nat (k - e)" by (simp only: rhe_of_int)
  then have "of_int (rhe (?a / 2 powi e)) * 2 powi e = ?a"
    unfolding pk by simp
  then show ?thesis unfolding rnd_mag_Some using e al by auto
qed

lemma rnd_mag_int:
  assumes "0 \<le> n" "n < 2 ^ 53"
  shows "rnd_mag (of_int n) = Some (of_int n)"
  using rnd_mag_exact[OF assms, of 0] by simp

lemma rnd_mag_0: "rnd_mag 0 = Some 0"
  using rnd_mag_int[of 0] by simp

lemma rnd_mag_idem:
  assumes "0 \<le> a" "rnd_mag a = Some v"
  shows "rnd_mag v = Some v"
proof -
  from assms(2) obtain e where e: "expo a = Some e"
    and v: "v = of_int (rhe (a / 2 powi e)) * 2 powi e" and vl: "v < 2 powi 1024"
    unfolding rnd_mag_Some by blast
  note E = expo_Some[OF e]
  define n where "n = rhe (a / 2 powi e)"
  have n0: "0 \<le> n" unfolding n_def using assms(1) by (intro rhe_nonneg) simp
  have n1: "n \<le> 2 ^ 53" unfolding n_def using scaled_less[OF E(3)] by (intro rhe_le) simp
  show ?thesis
  proof (cases "n < 2 ^ 53")
    case True
    show ?thesis unfolding v n_def[symmetric] by (rule rnd_mag_exact[OF n0 True E(1) E(2)])
  next
    case False
    then have n: "n = 2 ^ 53" using n1 by simp
    have vv: "v = 2 powi (e + 53)"
      unfolding v n_def[symmetric] n using two_powi_split[of e 53] by simp
    then have "(2::rat) powi (e + 53) < 2 powi 1024" using vl by simp
    then have "e + 53 < 1024"
    proof (rule contrapos_pp)
      assume "\<not> e + 53 < 1024"
      then have "(2::rat) powi 1024 \<le> 2 powi (e + 53)" by (intro two_powi_mono) simp
      then show "\<not> (2::rat) powi (e + 53) < 2 powi 1024" by (simp only: not_less)
    qed
    then have e1: "e + 1 \<le> 971" by simp
    have "e + 53 = e + 1 + int 52" by simp
    then have "(2::rat) powi (e + 53) = 2 powi (e + 1 + int 52)" by (rule arg_cong)
    also have "\<dots> = 2 powi (e + 1) * 2 ^ 52" by (rule two_powi_split)
    finally have "v = of_int (2 ^ 52) * 2 powi (e + 1)" unfolding vv by simp
    moreover have "rnd_mag (of_int (2 ^ 52) * 2 powi (e + 1)) = Some (of_int (2 ^ 52) * 2 powi (e + 1))"
      using E(1) e1 by (intro rnd_mag_exact) simp_all
    ultimately show ?thesis by simp
  qed
qed

lemma rnd_mag_tiny:
  assumes "0 \<le> a" "rnd_mag a = Some v"
  shows "v = 0 \<or> 2 powi (- 1074) \<le> v"
proof -
  from assms(2) obtain e where e: "expo a = Some e"
    and v: "v = of_int (rhe (a / 2 powi e)) * 2 powi e"
    unfolding rnd_mag_Some by blast
  note E = expo_Some[OF e]
  define n where "n = rhe (a / 2 powi e)"
  have n0: "0 \<le> n" unfolding n_def using assms(1) by (intro rhe_nonneg) simp
  show ?thesis
  proof (cases "n = 0")
    case True
    then show ?thesis unfolding v n_def[symmetric] by simp
  next
    case False
    then have "1 \<le> n" using n0 by simp
    then have "(1::rat) \<le> of_int n" by simp
    then have "1 * 2 powi e \<le> of_int n * (2::rat) powi e" by (intro mult_right_mono) simp_all
    then have "2 powi e \<le> of_int n * (2::rat) powi e" by (simp only: mult_1)
    moreover have "(2::rat) powi (- 1074) \<le> 2 powi e" using E(1) by (intro two_powi_mono)
    ultimately have "(2::rat) powi (- 1074) \<le> of_int n * 2 powi e" by (rule order_trans[rotated])
    then show ?thesis unfolding v n_def[symmetric] by (rule disjI2)
  qed
qed

lemma rnd_mag_le:
  assumes "0 \<le> a" "a \<le> B" "rnd_mag B = Some B"
  shows "\<exists>v. rnd_mag a = Some v \<and> 0 \<le> v \<and> v \<le> B"
  using rnd_mag_mono[OF assms] rnd_mag_nonneg[OF assms(1)] by blast

lemma rnd_mag_ge:
  assumes "0 \<le> L" "L \<le> a" "rnd_mag L = Some L" "rnd_mag a = Some v"
  shows "L \<le> v"
  using rnd_mag_mono[OF assms(1,2,4)] assms(3) by simp

subsection \<open>Operations on non-negative floats\<close>

lemma round_s_pos:
  "0 \<le> q \<Longrightarrow> round_s False q = (case rnd_mag q of None \<Rightarrow> PInf | Some v \<Rightarrow> Fin v)"
  by (auto simp: round_s_def rnd_mag_0)

lemma round_s_bounded:
  assumes "0 \<le> q" "q \<le> B" "rnd_mag B = Some B"
  shows "\<exists>v. round_s False q = Fin v \<and> 0 \<le> v \<and> v \<le> B \<and> rnd_mag q = Some v"
proof -
  from rnd_mag_le[OF assms] obtain v where "rnd_mag q = Some v" "0 \<le> v" "v \<le> B" by blast
  then show ?thesis using round_s_pos[OF assms(1)] by simp
qed

lemma round_s_exact:
  "0 \<le> q \<Longrightarrow> rnd_mag q = Some q \<Longrightarrow> round_s False q = Fin q"
  by (simp add: round_s_pos)

lemma fmul_Fin: "0 \<le> x \<Longrightarrow> 0 \<le> y \<Longrightarrow> fmul (Fin x) (Fin y) = round_s False (x * y)"
  by (simp add: fmul_def)

lemma fdiv_Fin: "0 \<le> x \<Longrightarrow> 0 < y \<Longrightarrow> fdiv (Fin x) (Fin y) = round_s False (x / y)"
  by (simp add: fdiv_def)

lemma fadd_Fin: "0 \<le> x \<Longrightarrow> 0 \<le> y \<Longrightarrow> fadd (Fin x) (Fin y) = round_s False (x + y)"
  by (simp add: fadd_def)

lemma fsub_Fin: "0 \<le> x \<Longrightarrow> 0 \<le> y \<Longrightarrow> fsub (Fin x) (Fin y) = round_s False (x - y)"
  by (simp add: fsub_def fneg_def fadd_def)

lemma fma_Fin:
  "0 \<le> x \<Longrightarrow> 0 \<le> y \<Longrightarrow> 0 \<le> z \<Longrightarrow> fma (Fin x) (Fin y) (Fin z) = round_s False (x * y + z)"
  by (simp add: fma_def)

text \<open>The clamp of the opacity.\<close>

lemma clamp_opacity_cases:
  "(op = NaN \<and> clamp_opacity op = NaN) \<or> (\<exists>q. clamp_opacity op = Fin q \<and> 0 \<le> q \<and> q \<le> 1)"
  by (cases op) (auto simp: clamp_opacity_def Max_f_def Min_f_def flt_def)

lemma clamp_opacity_Fin:
  "0 \<le> q \<Longrightarrow> q \<le> 1 \<Longrightarrow> clamp_opacity (Fin q) = Fin q"
  by (auto simp: clamp_opacity_def Max_f_def Min_f_def flt_def)

lemma clamp_opacity_NZero: "clamp_opacity NZero = Fin 0"
  by (simp add: clamp_opacity_def Max_f_def Min_f_def flt_def)

lemma clamp_opacity_NaN: "clamp_opacity NaN = NaN"
  by (simp add: clamp_opacity_def Max_f_def Min_f_def)

lemma clamp_opacity_idem: "clamp_opacity (clamp_opacity op) = clamp_opacity op"
  using clamp_opacity_cases[of op] by (auto simp: clamp_opacity_Fin)


text \<open>Bytes as floats.\<close>

lemma rnd_mag_nat:
  assumes "n < 2 ^ 53"
  shows "rnd_mag (of_nat n) = Some (of_nat n)"
proof -
  have "int n < 2 ^ 53" using assms by (metis of_nat_less_iff of_nat_numeral of_nat_power)
  then show ?thesis using rnd_mag_int[of "int n"] by simp
qed

lemma byte_val_bounds: "0 \<le> byte_val b" "byte_val b \<le> 255"
proof -
  show "0 \<le> byte_val b" unfolding byte_val_def by (rule of_nat_0_le_iff)
  have "unat b < 2 ^ 8" using unsigned_less[of b] by simp
  then have "unat b \<le> 255" by simp
  then show "byte_val b \<le> 255"
    unfolding byte_val_def by (metis of_nat_le_iff of_nat_numeral)
qed

lemma rnd_mag_byte: "rnd_mag (byte_val b) = Some (byte_val b)"
proof -
  have "unat b < 2 ^ 8" using unsigned_less[of b] by simp
  then have "unat b < 2 ^ 53" by (rule less_le_trans) simp
  then show ?thesis unfolding byte_val_def by (rule rnd_mag_nat)
qed

lemma byte_val_floor: "\<lfloor>byte_val b\<rfloor> = int (unat b)"
  unfolding byte_val_def by (rule floor_of_nat)

lemma byte_val_eq_0: "byte_val b = 0 \<longleftrightarrow> b = 0"
  unfolding byte_val_def by (simp add: unat_eq_0 del: of_nat_unat)

lemma byte_val_numeral: "byte_val 0 = 0" "byte_val 255 = 255"
  unfolding byte_val_def by simp_all

lemma rnd_mag_numeral [simp]:
  "numeral k < (2::nat) ^ 53 \<Longrightarrow> rnd_mag (numeral k) = Some (numeral k)"
  using rnd_mag_nat[of "numeral k"] by simp

lemma rnd_mag_1 [simp]: "rnd_mag 1 = Some 1"
  using rnd_mag_nat[of 1] by simp

lemma trunc_floor: "0 \<le> q \<Longrightarrow> trunc_rat q = \<lfloor>q\<rfloor>"
  by (simp add: trunc_rat_def)

lemma to_uint8_range:
  assumes "0 \<le> q" "q \<le> 255"
  shows "to_uint8 pf (Fin q) = word_of_int \<lfloor>q\<rfloor>" "unat (to_uint8 pf (Fin q)) = nat \<lfloor>q\<rfloor>"
proof -
  have f: "0 \<le> \<lfloor>q\<rfloor>" "\<lfloor>q\<rfloor> \<le> 255" using assms by (simp_all add: floor_le_iff le_floor_iff)
  show a: "to_uint8 pf (Fin q) = word_of_int \<lfloor>q\<rfloor>"
    using f assms by (simp add: to_uint8_def trunc_floor)
  have "\<lfloor>q\<rfloor> < 2 ^ LENGTH(8)" using f by simp
  then show "unat (to_uint8 pf (Fin q)) = nat \<lfloor>q\<rfloor>"
    unfolding a using f(1) by (simp add: unat_eq_nat_uint uint_word_of_int take_bit_int_eq_self)
qed

lemma to_uint8_byte: "to_uint8 pf (float64 b) = b"
proof -
  have "to_uint8 pf (Fin (byte_val b)) = word_of_int \<lfloor>byte_val b\<rfloor>"
    by (rule to_uint8_range(1)[OF byte_val_bounds])
  then show ?thesis by (simp add: float64_def byte_val_floor)
qed

lemma to_uint8_NaN: "to_uint8 pf NaN = conv_oor pf NaN"
  by (simp add: to_uint8_def)

subsection \<open>The blend of two pixels\<close>

lemma round_s_0: "round_s False 0 = Fin 0"
  by (simp add: round_s_def)

lemma round_s_1: "round_s False 1 = Fin 1"
  by (simp add: round_s_exact)

lemma round_s_byte: "round_s False (byte_val b) = Fin (byte_val b)"
  by (simp add: round_s_exact byte_val_bounds rnd_mag_byte)

lemma compl_byte: "\<exists>n. 255 - byte_val b = of_nat n \<and> n \<le> 255"
proof -
  have "unat b < 2 ^ 8" using unsigned_less[of b] by simp
  then have le: "unat b \<le> 255" by simp
  then have "(of_nat (255 - unat b) :: rat) = of_nat 255 - of_nat (unat b)"
    by (rule of_nat_diff)
  then have "255 - byte_val b = of_nat (255 - unat b)"
    unfolding byte_val_def by simp
  then show ?thesis by (intro exI[of _ "255 - unat b"]) simp
qed

lemma round_s_compl: "round_s False (255 - byte_val b) = Fin (255 - byte_val b)"
proof -
  from compl_byte[of b] obtain n where n: "255 - byte_val b = of_nat n" "n \<le> 255" by blast
  have "n < 2 ^ 53" using n(2) by (rule le_less_trans) simp
  then have "rnd_mag (of_nat n) = Some (of_nat n)" by (rule rnd_mag_nat)
  then show ?thesis unfolding n(1) by (simp add: round_s_exact)
qed

lemma round_s_255_compl: "round_s False (255 * (255 - byte_val b)) = Fin (255 * (255 - byte_val b))"
proof -
  from compl_byte[of b] obtain n where n: "255 - byte_val b = of_nat n" "n \<le> 255" by blast
  have "255 * n \<le> 255 * 255" using n(2) by simp
  then have "255 * n < 2 ^ 53" by (rule le_less_trans) simp
  then have "rnd_mag (of_nat (255 * n)) = Some (of_nat (255 * n))" by (rule rnd_mag_nat)
  then show ?thesis unfolding n(1) by (simp add: round_s_exact)
qed

text \<open>A sum of two products whose coefficients are 1 and 0.\<close>

lemma mul_add_first:
  assumes "0 \<le> x" "rnd_mag x = Some x" "0 \<le> y"
  shows "mul_add pf (Fin x) (Fin 1) (Fin y) (Fin 0) = Fin x"
  using assms by (cases "fuse pf")
    (simp_all add: mul_add_def fmul_Fin fadd_Fin fma_Fin round_s_0 round_s_exact)

lemma mul_add_second:
  assumes "0 \<le> x" "0 \<le> y" "rnd_mag y = Some y"
  shows "mul_add pf (Fin x) (Fin 0) (Fin y) (Fin 1) = Fin y"
  using assms by (cases "fuse pf")
    (simp_all add: mul_add_def fmul_Fin fadd_Fin fma_Fin round_s_0 round_s_exact)

lemma mul_add_NaN: "mul_add pf x NaN y NaN = NaN"
  by (cases "fuse pf") (simp_all add: mul_add_def fmul_def fadd_def fma_def)

lemma Min_f_255: "0 \<le> q \<Longrightarrow> Min_f (Fin q) (Fin 255) = Fin (min q 255)"
  by (auto simp: Min_f_def flt_def)

text \<open>Opacity 0 on a destination pixel that is not fully transparent.\<close>

lemma coef2_zero: "coef2_of (Fin 0) s = Fin 0"
  by (simp add: coef2_of_def float64_def fmul_Fin fdiv_Fin byte_val_bounds round_s_0)

lemma small_dyadic: "rnd_mag (2 powi (- 8)) = Some (2 powi (- 8))"
  using rnd_mag_exact[of 1 "- 8"] by simp

lemma coef1_zero_opacity:
  assumes "cA d \<noteq> 0"
  shows "\<exists>c. coef1_of (Fin 0) d s = Fin c \<and> 0 < c \<and> rnd_mag c = Some c"
proof -
  let ?a = "byte_val (cA d)"
  have a1: "1 \<le> ?a"
  proof -
    have "unat (cA d) \<noteq> 0" using assms by (simp add: unat_eq_0)
    then have "1 \<le> unat (cA d)" by simp
    then show ?thesis unfolding byte_val_def by (metis of_nat_1 of_nat_le_iff)
  qed
  have q: "0 \<le> ?a / 255" "?a / 255 \<le> 1" using byte_val_bounds[of "cA d"] by simp_all
  from round_s_bounded[OF q] obtain c where c: "round_s False (?a / 255) = Fin c"
    "0 \<le> c" "rnd_mag (?a / 255) = Some c" by auto
  have "(2::rat) powi (- 8) \<le> ?a / 255"
  proof -
    have "(2::rat) powi (- 8) \<le> 1 / 255" by (simp add: power_int_minus field_simps)
    also have "\<dots> \<le> ?a / 255" using a1 by (simp add: divide_right_mono)
    finally show ?thesis .
  qed
  then have "2 powi (- 8) \<le> c" using rnd_mag_ge[OF _ _ small_dyadic c(3)] by simp
  then have "0 < c" using two_powi_pos[of "- 8"] by linarith
  moreover have "rnd_mag c = Some c" using rnd_mag_idem[OF q(1) c(3)] .
  moreover have "coef1_of (Fin 0) d s = Fin c"
    by (simp add: coef1_of_def coef2_zero fsub_Fin round_s_1 float64_def fmul_Fin
        byte_val_bounds round_s_byte fdiv_Fin c(1))
  ultimately show ?thesis by blast
qed

lemma alpha_zero_opacity:
  "to_uint8 pf (Min_f (fadd (float64 a) (fdiv (fmul (fmul (float64 b) (Fin 0)) (fsub (Fin 255) (float64 a)))
                                               (Fin 255)))
                      (Fin 255)) = a"
proof -
  have c: "0 \<le> 255 - byte_val a" using byte_val_bounds[of a] by simp
  have "Min_f (fadd (float64 a) (fdiv (fmul (fmul (float64 b) (Fin 0)) (fsub (Fin 255) (float64 a)))
                                               (Fin 255))) (Fin 255) = float64 a"
    using byte_val_bounds[of a] c
    by (simp add: float64_def fmul_Fin fsub_Fin fdiv_Fin fadd_Fin byte_val_bounds round_s_0
        round_s_compl round_s_byte Min_f_255 min_def)
  then show ?thesis by (simp add: to_uint8_byte)
qed

lemma blend_opacity_zero:
  assumes "cA d \<noteq> 0"
  shows "blend pf (Fin 0) d s = d"
proof -
  from coef1_zero_opacity[OF assms, of s] obtain c where c: "coef1_of (Fin 0) d s = Fin c"
    "0 < c" "rnd_mag c = Some c" by blast
  have cs: "coefSum_of (Fin 0) d s = Fin c"
    using c by (simp add: coefSum_of_def coef2_zero fadd_Fin round_s_exact)
  have n1: "fdiv (Fin c) (Fin c) = Fin 1" using c(2) by (simp add: fdiv_Fin round_s_1)
  have n2: "fdiv (Fin 0) (Fin c) = Fin 0" using c(2) by (simp add: fdiv_Fin round_s_0)
  have ch: "to_uint8 pf (mul_add pf (float64 x) (Fin 1) (float64 y) (Fin 0)) = x" for x y
    using mul_add_first[of "byte_val x" "byte_val y" pf] to_uint8_byte[of pf x]
    by (simp add: float64_def byte_val_bounds rnd_mag_byte)
  show ?thesis
    unfolding blend_def Let_def c(1) cs coef2_zero n1 n2 ch alpha_zero_opacity by simp
qed

text \<open>Opacity 1 on an opaque source pixel.\<close>

lemma coef2_one:
  assumes "cA s = 255"
  shows "coef2_of (Fin 1) s = Fin 1"
  by (simp add: coef2_of_def float64_def assms byte_val_numeral fmul_Fin round_s_exact
      fdiv_Fin round_s_1)

lemma coef1_one:
  assumes "cA s = 255"
  shows "coef1_of (Fin 1) d s = Fin 0"
  by (simp add: coef1_of_def coef2_one[OF assms] fsub_Fin round_s_0 float64_def fmul_Fin
      byte_val_bounds fdiv_Fin)

lemma alpha_one_opacity:
  "to_uint8 pf (Min_f (fadd (float64 a) (fdiv (fmul (fmul (float64 255) (Fin 1)) (fsub (Fin 255) (float64 a)))
                                               (Fin 255)))
                      (Fin 255)) = 255"
proof -
  let ?c = "255 - byte_val a"
  have c: "0 \<le> ?c" using byte_val_bounds[of a] by simp
  have s1: "fmul (float64 255) (Fin 1) = Fin 255"
    by (simp add: float64_def byte_val_numeral fmul_Fin round_s_exact)
  have s2: "fsub (Fin 255) (float64 a) = Fin ?c"
    by (simp add: float64_def fsub_Fin byte_val_bounds round_s_compl)
  have "fmul (Fin 255) (Fin ?c) = round_s False (255 * ?c)"
    by (rule fmul_Fin) (simp, rule c)
  then have s3: "fmul (Fin 255) (Fin ?c) = Fin (255 * ?c)"
    by (simp only: round_s_255_compl)
  have "255 * ?c / 255 = ?c" by simp
  moreover have "0 \<le> 255 * ?c" using c by simp
  ultimately have s4: "fdiv (Fin (255 * ?c)) (Fin 255) = Fin ?c"
    using fdiv_Fin[of "255 * ?c" 255] by (simp only: round_s_compl zero_less_numeral)
  have "byte_val a + ?c = 255" by simp
  then have s5: "fadd (float64 a) (Fin ?c) = Fin 255"
    using c fadd_Fin[of "byte_val a" ?c] byte_val_bounds[of a]
    by (simp add: float64_def round_s_exact)
  have "Min_f (Fin 255) (Fin 255) = Fin 255" by (simp add: Min_f_255)
  then show ?thesis
    unfolding s1 s2 s3 s4 s5 using to_uint8_range(1)[of 255 pf] by simp
qed

lemma blend_opaque_full:
  assumes "cA s = 255"
  shows "blend pf (Fin 1) d s = s"
proof -
  have cs: "coefSum_of (Fin 1) d s = Fin 1"
    by (simp add: coefSum_of_def coef1_one[OF assms] coef2_one[OF assms] fadd_Fin round_s_1)
  have n1: "fdiv (Fin 0) (Fin 1) = Fin 0" by (simp add: fdiv_Fin round_s_0)
  have n2: "fdiv (Fin 1) (Fin 1) = Fin 1" by (simp add: fdiv_Fin round_s_1)
  have ch: "to_uint8 pf (mul_add pf (float64 x) (Fin 0) (float64 y) (Fin 1)) = y" for x y
    using mul_add_second[of "byte_val x" "byte_val y" pf] to_uint8_byte[of pf y]
    by (simp add: float64_def byte_val_bounds rnd_mag_byte)
  have al: "to_uint8 pf (Min_f (fadd (float64 (cA d))
              (fdiv (fmul (fmul (float64 (cA s)) (Fin 1)) (fsub (Fin 255) (float64 (cA d)))) (Fin 255)))
              (Fin 255)) = cA s"
    unfolding assms by (rule alpha_one_opacity)
  show ?thesis
    unfolding blend_def Let_def coef1_one[OF assms] coef2_one[OF assms] cs n1 n2 ch al by simp
qed

text \<open>A NaN opacity reaches every channel.\<close>

lemma blend_NaN:
  "blend pf NaN d s =
     \<lparr>cR = conv_oor pf NaN, cG = conv_oor pf NaN, cB = conv_oor pf NaN, cA = conv_oor pf NaN\<rparr>"
proof -
  have c2: "coef2_of NaN s = NaN" by (simp add: coef2_of_def fmul_def fdiv_def)
  have c1: "coef1_of NaN d s = NaN" by (simp add: coef1_of_def c2 fsub_def fneg_def fadd_def fmul_def fdiv_def)
  have n: "fdiv NaN x = NaN" for x by (simp add: fdiv_def)
  have al: "Min_f (fadd (float64 (cA d))
              (fdiv (fmul (fmul (float64 (cA s)) NaN) (fsub (Fin 255) (float64 (cA d)))) (Fin 255)))
              (Fin 255) = NaN"
    by (simp add: fmul_def fdiv_def fadd_def Min_f_def float64_def)
  show ?thesis
    unfolding blend_def Let_def c1 c2 n mul_add_NaN al to_uint8_NaN by simp
qed

text \<open>The concrete blend of the scenario: half of opaque red under half of opaque blue.\<close>

lemma half_dyadic: "rnd_mag (1 / 2) = Some (1 / 2)" "rnd_mag (255 / 2) = Some (255 / 2)"
  using rnd_mag_exact[of 1 "- 1"] rnd_mag_exact[of 255 "- 1"] by simp_all

lemma mul_add_half:
  assumes "(x = 255 \<and> y = 0) \<or> (x = 0 \<and> y = 255)"
  shows "mul_add pf (Fin x) (Fin (1 / 2)) (Fin y) (Fin (1 / 2)) = Fin (255 / 2)"
  using assms by (cases "fuse pf")
    (auto simp: mul_add_def fmul_Fin fadd_Fin fma_Fin round_s_0 round_s_exact half_dyadic)

lemma mul_add_half_zero:
  "mul_add pf (Fin 0) (Fin (1 / 2)) (Fin 0) (Fin (1 / 2)) = Fin 0"
  by (cases "fuse pf") (auto simp: mul_add_def fmul_Fin fadd_Fin fma_Fin round_s_0)

lemma blend_half:
  "blend pf (Fin (1 / 2)) (rgba 255 0 0 255) (rgba 0 0 255 255) = rgba 127 0 127 255"
proof -
  let ?d = "rgba 255 0 0 255" and ?s = "rgba 0 0 255 255"
  have f: "float64 255 = Fin 255" "float64 0 = Fin 0" by (simp_all add: float64_def byte_val_numeral)
  have c2: "coef2_of (Fin (1 / 2)) ?s = Fin (1 / 2)"
    by (simp add: coef2_of_def rgba_def f fmul_Fin fdiv_Fin round_s_exact half_dyadic)
  have c1: "coef1_of (Fin (1 / 2)) ?d ?s = Fin (1 / 2)"
    unfolding coef1_of_def c2
    by (simp add: rgba_def f fsub_Fin fmul_Fin fdiv_Fin round_s_exact half_dyadic)
  have cs: "coefSum_of (Fin (1 / 2)) ?d ?s = Fin 1"
    by (simp add: coefSum_of_def c1 c2 fadd_Fin round_s_1)
  have n: "fdiv (Fin (1 / 2)) (Fin 1) = Fin (1 / 2)"
    by (simp add: fdiv_Fin round_s_exact half_dyadic)
  have fl: "\<lfloor>(255::rat) / 2\<rfloor> = 127" by (rule floor_unique) simp_all
  have t: "to_uint8 pf (Fin (255 / 2)) = 127" "to_uint8 pf (Fin 0) = 0" "to_uint8 pf (Fin 255) = 255"
    using to_uint8_range(1)[of "255 / 2" pf] to_uint8_range(1)[of 0 pf] to_uint8_range(1)[of 255 pf]
    by (simp_all add: fl)
  have al: "Min_f (fadd (Fin 255) (fdiv (fmul (fmul (Fin 255) (Fin (1 / 2))) (fsub (Fin 255) (Fin 255)))
              (Fin 255))) (Fin 255) = Fin 255"
    by (simp add: fmul_Fin fsub_Fin fdiv_Fin fadd_Fin round_s_0 round_s_exact half_dyadic Min_f_255)
  show ?thesis
    unfolding blend_def Let_def c1 c2 cs n
    by (simp add: rgba_def f mul_add_half mul_add_half_zero t al)
qed

lemma mult_le_255:
  fixes x y :: rat
  assumes "0 \<le> x" "x \<le> a" "0 \<le> y" "y \<le> b"
  shows "0 \<le> x * y" "x * y \<le> a * b"
  using assms by (simp_all add: mult_mono)

text \<open>The alpha written by the blend, for an opacity of the range.\<close>

lemma alpha_bounds:
  assumes o: "0 \<le> q" "q \<le> 1"
  shows "\<exists>v. fadd (float64 a) (fdiv (fmul (fmul (float64 b) (Fin q)) (fsub (Fin 255) (float64 a)))
                                       (Fin 255)) = Fin v \<and> byte_val a \<le> v"
proof -
  let ?a = "byte_val a" and ?b = "byte_val b"
  let ?c = "255 - byte_val a"
  note ba = byte_val_bounds[of a] and bb = byte_val_bounds[of b]
  have c: "0 \<le> ?c" "?c \<le> 255" using ba by simp_all
  have "0 \<le> ?b * q" "?b * q \<le> 255 * 1"
    using mult_le_255[of ?b 255 q 1] bb o by simp_all
  then have "\<exists>v. round_s False (?b * q) = Fin v \<and> 0 \<le> v \<and> v \<le> 255 \<and> rnd_mag (?b * q) = Some v"
    by (intro round_s_bounded) simp_all
  then obtain v1 where v1: "fmul (float64 b) (Fin q) = Fin v1" "0 \<le> v1" "v1 \<le> 255"
    using fmul_Fin[OF bb(1) o(1)] by (auto simp: float64_def)
  have s2: "fsub (Fin 255) (float64 a) = Fin ?c"
    by (simp add: float64_def fsub_Fin byte_val_bounds round_s_compl)
  have "0 \<le> v1 * ?c" "v1 * ?c \<le> 255 * 255"
    using mult_le_255[of v1 255 ?c 255] v1 c by simp_all
  then have "\<exists>v. round_s False (v1 * ?c) = Fin v \<and> 0 \<le> v \<and> v \<le> 255 * 255 \<and> rnd_mag (v1 * ?c) = Some v"
    by (intro round_s_bounded) simp_all
  then obtain v2 where v2: "fmul (Fin v1) (Fin ?c) = Fin v2" "0 \<le> v2" "v2 \<le> 255 * 255"
    using fmul_Fin[OF v1(2) c(1)] by auto
  have "0 \<le> v2 / 255" "v2 / 255 \<le> 255" using v2 by simp_all
  then have "\<exists>v. round_s False (v2 / 255) = Fin v \<and> 0 \<le> v \<and> v \<le> 255 \<and> rnd_mag (v2 / 255) = Some v"
    by (intro round_s_bounded) simp_all
  then obtain v3 where v3: "fdiv (Fin v2) (Fin 255) = Fin v3" "0 \<le> v3" "v3 \<le> 255"
    using fdiv_Fin[OF v2(2), of 255] by auto
  have "0 \<le> ?a + v3" "?a + v3 \<le> 510" using ba v3 by simp_all
  then have "\<exists>v. round_s False (?a + v3) = Fin v \<and> 0 \<le> v \<and> v \<le> 510 \<and> rnd_mag (?a + v3) = Some v"
    by (intro round_s_bounded) simp_all
  then obtain v4 where v4: "fadd (Fin ?a) (Fin v3) = Fin v4" "rnd_mag (?a + v3) = Some v4"
    using fadd_Fin[OF ba(1) v3(2)] by auto
  have "?a \<le> v4"
    using rnd_mag_ge[OF ba(1) _ rnd_mag_byte v4(2)] v3(2) by simp
  then show ?thesis
    unfolding s2 v1(1) v2(1) v3(1) using v4(1) by (simp add: float64_def)
qed

lemma to_uint8_ge:
  assumes "byte_val a \<le> v"
  shows "a \<le> to_uint8 pf (Min_f (Fin v) (Fin 255))"
proof -
  note ba = byte_val_bounds[of a]
  have v0: "0 \<le> v" using assms ba by simp
  let ?m = "min v 255"
  have m: "0 \<le> ?m" "?m \<le> 255" "byte_val a \<le> ?m" using v0 assms ba by simp_all
  have "int (unat a) \<le> \<lfloor>?m\<rfloor>"
    using floor_mono[OF m(3)] by (simp only: byte_val_floor)
  then have "unat a \<le> nat \<lfloor>?m\<rfloor>" by linarith
  then have "unat a \<le> unat (to_uint8 pf (Fin ?m))"
    using to_uint8_range(2)[OF m(1,2), of pf] by simp
  then show ?thesis
    unfolding Min_f_255[OF v0] by (simp add: word_le_nat_alt)
qed

lemma blend_alpha_mono:
  assumes "op \<noteq> NaN"
  shows "cA d \<le> cA (blend pf (clamp_opacity op) d s)"
proof -
  from clamp_opacity_cases[of op] assms obtain q where q: "clamp_opacity op = Fin q" "0 \<le> q" "q \<le> 1"
    by blast
  from alpha_bounds[OF q(2,3), of "cA d" "cA s"] obtain v where
    v: "fadd (float64 (cA d)) (fdiv (fmul (fmul (float64 (cA s)) (Fin q)) (fsub (Fin 255) (float64 (cA d))))
                                       (Fin 255)) = Fin v" "byte_val (cA d) \<le> v"
    by blast
  show ?thesis
    unfolding q(1) blend_def Let_def using to_uint8_ge[OF v(2), of pf] by (simp add: v(1))
qed

lemma tiny_dyadic: "rnd_mag (2 powi (- 1074)) = Some (2 powi (- 1074))"
  using rnd_mag_exact[of 1 "- 1074"] by simp

lemma dyadic_16: "rnd_mag (2 powi (- 16)) = Some (2 powi (- 16))"
  using rnd_mag_exact[of 1 "- 16"] by simp

lemma dyadic_7: "rnd_mag (2 powi (- 7)) = Some (2 powi (- 7))"
  using rnd_mag_exact[of 1 "- 7"] by simp

text \<open>A sum of two rounded non-negative values rounds to zero only when both are zero.\<close>

lemma sum_rounds_to_zero:
  assumes x: "0 \<le> a" "rnd_mag a = Some x" and y: "0 \<le> b" "rnd_mag b = Some y"
    and s: "rnd_mag (x + y) = Some 0"
  shows "x = 0 \<and> y = 0"
proof (rule ccontr)
  assume n: "\<not> (x = 0 \<and> y = 0)"
  note x0 = rnd_mag_nonneg[OF x] and y0 = rnd_mag_nonneg[OF y]
  have "2 powi (- 1074) \<le> x + y"
    using n rnd_mag_tiny[OF x] rnd_mag_tiny[OF y] x0 y0 by auto
  then have "(2::rat) powi (- 1074) \<le> 0"
    using rnd_mag_ge[OF _ _ tiny_dyadic s] by simp
  then show False using two_powi_pos[of "- 1074"] by linarith
qed

text \<open>A byte over 255 rounds to zero only for the byte 0.\<close>

lemma byte_ratio_zero:
  assumes "rnd_mag (byte_val a / 255) = Some 0"
  shows "a = 0"
proof (rule ccontr)
  assume "a \<noteq> 0"
  then have "unat a \<noteq> 0" by (simp add: unat_eq_0)
  then have "1 \<le> unat a" by simp
  then have a1: "1 \<le> byte_val a" unfolding byte_val_def by (metis of_nat_1 of_nat_le_iff)
  have "(2::rat) powi (- 8) \<le> 1 / 255" by (simp add: power_int_minus field_simps)
  also have "\<dots> \<le> byte_val a / 255" using a1 by (simp add: divide_right_mono)
  finally have "(2::rat) powi (- 8) \<le> 0"
    using rnd_mag_ge[OF _ _ small_dyadic assms] by simp
  then show False using two_powi_pos[of "- 8"] by linarith
qed

lemma coefSum_zero:
  assumes z: "is_zero (coefSum_of (clamp_opacity op) d s)"
  shows "coef1_of (clamp_opacity op) d s = Fin 0 \<and> coef2_of (clamp_opacity op) s = Fin 0 \<and>
         cA d = 0 \<and>
         (\<exists>q v. clamp_opacity op = Fin q \<and> 0 \<le> q \<and> rnd_mag (q * byte_val (cA s)) = Some v \<and>
                 rnd_mag (v / 255) = Some 0)"
proof -
  let ?a1 = "byte_val (cA d)" and ?a2 = "byte_val (cA s)"
  note b1 = byte_val_bounds[of "cA d"] and b2 = byte_val_bounds[of "cA s"]
  have "clamp_opacity op \<noteq> NaN"
  proof
    assume "clamp_opacity op = NaN"
    then have "coefSum_of (clamp_opacity op) d s = NaN"
      by (simp add: coefSum_of_def coef1_of_def coef2_of_def fmul_def fdiv_def fadd_def)
    then show False using z by simp
  qed
  with clamp_opacity_cases[of op] obtain q where q: "clamp_opacity op = Fin q" "0 \<le> q" "q \<le> 1"
    by auto
  have "0 \<le> q * ?a2" "q * ?a2 \<le> 1 * 255"
    using mult_le_255[of q 1 ?a2 255] b2 q by simp_all
  then have "\<exists>v. round_s False (q * ?a2) = Fin v \<and> 0 \<le> v \<and> v \<le> 255 \<and> rnd_mag (q * ?a2) = Some v"
    by (intro round_s_bounded) simp_all
  then obtain v1 where v1: "round_s False (q * ?a2) = Fin v1" "0 \<le> v1" "v1 \<le> 255"
    "rnd_mag (q * ?a2) = Some v1" by blast
  have "0 \<le> v1 / 255" "v1 / 255 \<le> 1" using v1 by simp_all
  then have "\<exists>v. round_s False (v1 / 255) = Fin v \<and> 0 \<le> v \<and> v \<le> 1 \<and> rnd_mag (v1 / 255) = Some v"
    by (intro round_s_bounded) simp_all
  then obtain c2 where c2: "round_s False (v1 / 255) = Fin c2" "0 \<le> c2" "c2 \<le> 1"
    "rnd_mag (v1 / 255) = Some c2" by blast
  have C2: "coef2_of (Fin q) s = Fin c2"
    using q b2 v1 c2 by (simp add: coef2_of_def float64_def fmul_Fin fdiv_Fin)
  have "0 \<le> 1 - c2" "1 - c2 \<le> 1" using c2 by simp_all
  then have "\<exists>v. round_s False (1 - c2) = Fin v \<and> 0 \<le> v \<and> v \<le> 1 \<and> rnd_mag (1 - c2) = Some v"
    by (intro round_s_bounded) simp_all
  then obtain s1 where s1: "round_s False (1 - c2) = Fin s1" "0 \<le> s1" "s1 \<le> 1"
    "rnd_mag (1 - c2) = Some s1" by blast
  have "0 \<le> s1 * ?a1" "s1 * ?a1 \<le> 1 * 255"
    using mult_le_255[of s1 1 ?a1 255] b1 s1 by simp_all
  then have "\<exists>v. round_s False (s1 * ?a1) = Fin v \<and> 0 \<le> v \<and> v \<le> 255 \<and> rnd_mag (s1 * ?a1) = Some v"
    by (intro round_s_bounded) simp_all
  then obtain v2 where v2: "round_s False (s1 * ?a1) = Fin v2" "0 \<le> v2" "v2 \<le> 255"
    "rnd_mag (s1 * ?a1) = Some v2" by blast
  have "0 \<le> v2 / 255" "v2 / 255 \<le> 1" using v2 by simp_all
  then have "\<exists>v. round_s False (v2 / 255) = Fin v \<and> 0 \<le> v \<and> v \<le> 1 \<and> rnd_mag (v2 / 255) = Some v"
    by (intro round_s_bounded) simp_all
  then obtain c1 where c1: "round_s False (v2 / 255) = Fin c1" "0 \<le> c1" "c1 \<le> 1"
    "rnd_mag (v2 / 255) = Some c1" by blast
  have C1: "coef1_of (Fin q) d s = Fin c1"
    unfolding coef1_of_def C2
    using c2 s1 b1 v2 c1 by (simp add: float64_def fsub_Fin fmul_Fin fdiv_Fin)
  have "0 \<le> c1 + c2" "c1 + c2 \<le> 2" using c1 c2 by simp_all
  then have "\<exists>v. round_s False (c1 + c2) = Fin v \<and> 0 \<le> v \<and> v \<le> 2 \<and> rnd_mag (c1 + c2) = Some v"
    by (intro round_s_bounded) simp_all
  then obtain cs where cs: "round_s False (c1 + c2) = Fin cs" "rnd_mag (c1 + c2) = Some cs" by blast
  have "coefSum_of (Fin q) d s = Fin cs"
    unfolding coefSum_of_def C1 C2 using c1 c2 cs by (simp add: fadd_Fin)
  then have "cs = 0" using z unfolding q(1) by simp
  then have zz: "c1 = 0 \<and> c2 = 0"
    using sum_rounds_to_zero[OF _ c1(4) _ c2(4)] v1 v2 cs(2) by simp
  then have "s1 = 1" using s1(4) by simp
  then have "v2 = ?a1" using v2(4) by (simp add: rnd_mag_byte)
  then have "cA d = 0" using c1(4) zz byte_ratio_zero by simp
  then show ?thesis using C1 C2 zz q v1(4) c2(4) by auto
qed

lemma fdiv_zero_zero: "fdiv (Fin 0) (Fin 0) = NaN"
  by (simp add: fdiv_def)

lemma alpha_coefSum_zero:
  assumes q: "0 \<le> q" and v: "rnd_mag (q * byte_val b) = Some v" and r: "rnd_mag (v / 255) = Some 0"
  shows "to_uint8 pf (Min_f (fadd (float64 0) (fdiv (fmul (fmul (float64 b) (Fin q)) (fsub (Fin 255) (float64 0)))
                                                     (Fin 255)))
                            (Fin 255)) = 0"
proof -
  note bb = byte_val_bounds[of b]
  have qb: "0 \<le> q * byte_val b" using q bb by simp
  have v0: "0 \<le> v" using rnd_mag_nonneg[OF qb v] .
  have vs: "v \<le> 2 powi (- 8)"
  proof (rule ccontr)
    assume "\<not> v \<le> 2 powi (- 8)"
    then have "2 powi (- 8) / 255 \<le> v / 255" by (simp add: divide_right_mono)
    moreover have "(2::rat) powi (- 16) \<le> 2 powi (- 8) / 255"
      by (simp add: power_int_minus field_simps)
    ultimately have "(2::rat) powi (- 16) \<le> v / 255" by linarith
    then have "(2::rat) powi (- 16) \<le> 0"
      using rnd_mag_ge[OF _ _ dyadic_16 r] by simp
    then show False using two_powi_pos[of "- 16"] by linarith
  qed
  have s1: "fmul (float64 b) (Fin q) = Fin v"
    using fmul_Fin[OF bb(1) q] round_s_pos[OF qb] v by (simp add: float64_def mult.commute)
  have s2: "fsub (Fin 255) (float64 0) = Fin 255"
    by (simp add: float64_def byte_val_numeral fsub_Fin round_s_exact)
  have "v * 255 \<le> 1"
  proof -
    have "v * 255 \<le> 2 powi (- 8) * 255" using vs by simp
    also have "\<dots> \<le> 1" by (simp add: power_int_minus field_simps)
    finally show ?thesis .
  qed
  moreover have "0 \<le> v * 255" using v0 by simp
  ultimately have "\<exists>w. round_s False (v * 255) = Fin w \<and> 0 \<le> w \<and> w \<le> 1 \<and> rnd_mag (v * 255) = Some w"
    by (intro round_s_bounded) simp_all
  then obtain w where w: "fmul (Fin v) (Fin 255) = Fin w" "0 \<le> w" "w \<le> 1"
    using fmul_Fin[OF v0, of 255] by auto
  have "w / 255 \<le> 2 powi (- 7)"
  proof -
    have "w / 255 \<le> 1 / 255" using w by (simp add: divide_right_mono)
    also have "\<dots> \<le> 2 powi (- 7)" by (simp add: power_int_minus field_simps)
    finally show ?thesis .
  qed
  moreover have "0 \<le> w / 255" using w by simp
  ultimately have "\<exists>u. round_s False (w / 255) = Fin u \<and> 0 \<le> u \<and> u \<le> 2 powi (- 7) \<and>
      rnd_mag (w / 255) = Some u"
    by (intro round_s_bounded dyadic_7)
  then obtain u where u: "fdiv (Fin w) (Fin 255) = Fin u" "0 \<le> u" "u \<le> 2 powi (- 7)"
    "rnd_mag (w / 255) = Some u"
    using fdiv_Fin[OF w(2), of 255] by auto
  have "rnd_mag u = Some u" using rnd_mag_idem[OF _ u(4)] w by simp
  then have s5: "fadd (float64 0) (Fin u) = Fin u"
    using fadd_Fin[of 0 u] u(2) by (simp add: float64_def byte_val_numeral round_s_exact)
  have u1: "u < 1"
  proof -
    have "(2::rat) powi (- 7) < 1" by (simp add: power_int_minus field_simps)
    then show ?thesis using u(3) by linarith
  qed
  have "min u 255 = u" using u1 by simp
  moreover have "\<lfloor>u\<rfloor> = 0" using u(2) u1 by (simp add: floor_eq_iff)
  ultimately have "to_uint8 pf (Min_f (Fin u) (Fin 255)) = 0"
    using to_uint8_range(1)[of u pf] u(2) u1 by (simp add: Min_f_255)
  then show ?thesis unfolding s1 s2 w(1) u(1) s5 .
qed

lemma blend_coefSum_zero:
  assumes "is_zero (coefSum_of (clamp_opacity op) d s)"
  shows "blend pf (clamp_opacity op) d s =
           \<lparr>cR = conv_oor pf NaN, cG = conv_oor pf NaN, cB = conv_oor pf NaN, cA = 0\<rparr> \<and>
         cA d = 0"
proof -
  from coefSum_zero[OF assms] obtain q v where
    c1: "coef1_of (clamp_opacity op) d s = Fin 0" and c2: "coef2_of (clamp_opacity op) s = Fin 0"
    and a: "cA d = 0" and q: "clamp_opacity op = Fin q" "0 \<le> q"
    and v: "rnd_mag (q * byte_val (cA s)) = Some v" "rnd_mag (v / 255) = Some 0"
    by blast
  have cs: "coefSum_of (clamp_opacity op) d s = Fin 0"
    by (simp add: coefSum_of_def c1 c2 fadd_Fin round_s_0)
  have al: "to_uint8 pf (Min_f (fadd (float64 (cA d))
              (fdiv (fmul (fmul (float64 (cA s)) (clamp_opacity op)) (fsub (Fin 255) (float64 (cA d))))
                    (Fin 255))) (Fin 255)) = 0"
    unfolding a q(1) by (rule alpha_coefSum_zero[OF q(2) v])
  show ?thesis
    unfolding blend_def Let_def c1 c2 cs fdiv_zero_zero mul_add_NaN to_uint8_NaN al
    using a by simp
qed

subsection \<open>Iterating over the intersection\<close>

lemma for_each_upto:
  assumes step: "\<And>v st. lo0 \<le> v \<Longrightarrow> v \<le> hi \<Longrightarrow> I v st \<Longrightarrow> \<exists>st'. body v st = Inr st' \<and> I (v + 1) st'"
  shows "lo0 \<le> lo \<Longrightarrow> lo \<le> hi + 1 \<Longrightarrow> I lo st \<Longrightarrow>
         \<exists>st'. for_each body [lo..hi] st = Inr st' \<and> I (hi + 1) st'"
proof (induction "nat (hi + 1 - lo)" arbitrary: lo st)
  case 0
  then have "lo = hi + 1" by simp
  then show ?case using 0 by simp
next
  case (Suc n)
  then have le: "lo \<le> hi" by linarith
  from step[OF Suc.prems(1) le Suc.prems(3)] obtain st1 where
    b: "body lo st = Inr st1" and i1: "I (lo + 1) st1" by blast
  have "n = nat (hi + 1 - (lo + 1))" using Suc.hyps(2) by linarith
  from Suc.hyps(1)[OF this _ _ i1] Suc.prems(1) le obtain st' where
    "for_each body [lo + 1..hi] st1 = Inr st'" "I (hi + 1) st'"
    by auto
  then show ?case using b by (simp add: upto_rec1[OF le])
qed

lemma store_color_same:
  assumes "i + 3 < length px"
  shows "length (store_color px i c) = length px" "color_at (store_color px i c) i = c"
  using assms by (simp_all add: store_color_def color_at_def)

lemma store_color_other:
  assumes "j + 3 < i \<or> i + 3 < j"
  shows "color_at (store_color px i c) j = color_at px j"
  using assms by (auto simp: store_color_def color_at_def)

text \<open>Two points of a buffer lie at least four bytes apart.\<close>

lemma pixel_offsets_apart:
  fixes x y x' y' w :: int
  assumes "0 \<le> x" "x < w" "0 \<le> x'" "x' < w" "(x', y') \<noteq> (x, y)"
  shows "y' * (4 * w) + 4 * x' + 3 < y * (4 * w) + 4 * x \<or>
         y * (4 * w) + 4 * x + 3 < y' * (4 * w) + 4 * x'"
proof -
  consider "y' < y" | "y' = y" | "y < y'" by linarith
  then show ?thesis
  proof cases
    case 1
    then have "(y' + 1) * (4 * w) \<le> y * (4 * w)" using assms by (intro mult_right_mono) auto
    then show ?thesis using assms by (simp add: algebra_simps)
  next
    case 2
    then show ?thesis using assms by auto
  next
    case 3
    then have "(y + 1) * (4 * w) \<le> y' * (4 * w)" using assms by (intro mult_right_mono) auto
    then show ?thesis using assms by (simp add: algebra_simps)
  qed
qed

text \<open>One pass of the inner loop, on a destination of \<open>w\<close> by \<open>h\<close> pixels.\<close>

lemma overlay_at_ok:
  fixes w h x y :: int
  assumes xy: "0 \<le> x" "x < w" "0 \<le> y" "y < h"
    and len: "int (length px) = 4 * w * h"
    and uv: "0 \<le> x - X (Min_pt pb)" "x - X (Min_pt pb) < Dx (Bounds img)"
            "0 \<le> y - Y (Min_pt pb)" "y - Y (Min_pt pb) < Dy (Bounds img)"
  shows "\<exists>px'. overlay_at pf op (4 * w) (Clone img) pb y x px = Inr px' \<and>
           length px' = length px \<and>
           color_at px' (nat (y * (4 * w) + 4 * x)) =
             blend pf op (color_at px (nat (y * (4 * w) + 4 * x)))
               (At img (X (Min_pt (Bounds img)) + (x - X (Min_pt pb)))
                       (Y (Min_pt (Bounds img)) + (y - Y (Min_pt pb)))) \<and>
           (\<forall>x' y'. 0 \<le> x' \<and> x' < w \<and> 0 \<le> y' \<and> y' < h \<and> (x', y') \<noteq> (x, y) \<longrightarrow>
              color_at px' (nat (y' * (4 * w) + 4 * x')) = color_at px (nat (y' * (4 * w) + 4 * x')))"
proof -
  let ?i = "y * (4 * w) + 4 * x"
  let ?su = "x - X (Min_pt pb)" and ?sv = "y - Y (Min_pt pb)"
  let ?sw = "int (nat (Dx (Bounds img)))" and ?sh = "int (nat (Dy (Bounds img)))"
  let ?j = "?sv * (4 * ?sw) + 4 * ?su"
  have sw: "?sw = Dx (Bounds img)" "?sh = Dy (Bounds img)" using uv by simp_all
  have i0: "0 \<le> ?i" using xy by simp
  have i1: "?i + 4 \<le> 4 * w * h" using idx_bound[OF xy] .
  have j0: "0 \<le> ?j" using uv by simp
  have j1: "?j + 4 \<le> 4 * ?sw * ?sh" using idx_bound[of ?su ?sw ?sv ?sh] uv sw by simp
  have ls: "int (length (Pix (Clone img))) = 4 * ?sw * ?sh" by (simp add: Clone_fields)
  define c where "c = blend pf op (color_at px (nat ?i)) (color_at (Pix (Clone img)) (nat ?j))"
  define px' where "px' = store_color px (nat ?i) c"
  have ie: "y * (4 * w) + x * 4 = ?i" by simp
  have je: "?sv * Stride (Clone img) + ?su * 4 = ?j" by (simp add: Clone_fields(1))
  have run: "overlay_at pf op (4 * w) (Clone img) pb y x px = Inr px'"
    unfolding overlay_at_def Let_def ie je px'_def c_def
    using i0 i1 j0 j1 len ls by simp
  have il: "nat ?i + 3 < length px" using i0 i1 len by linarith
  have sc: "color_at (Pix (Clone img)) (nat ?j) =
            At img (X (Min_pt (Bounds img)) + ?su) (Y (Min_pt (Bounds img)) + ?sv)"
    by (rule Clone_color[OF uv])
  have same: "color_at px' (nat ?i) = c" and ln: "length px' = length px"
    unfolding px'_def using store_color_same[OF il] by simp_all
  have other: "color_at px' (nat (y' * (4 * w) + 4 * x')) = color_at px (nat (y' * (4 * w) + 4 * x'))"
    if o: "0 \<le> x'" "x' < w" "0 \<le> y'" "y' < h" "(x', y') \<noteq> (x, y)" for x' y'
  proof -
    let ?k = "y' * (4 * w) + 4 * x'"
    have k0: "0 \<le> ?k" using o xy by simp
    have "?k + 3 < ?i \<or> ?i + 3 < ?k"
      using pixel_offsets_apart[OF xy(1,2) o(1,2) o(5)] .
    then have "nat ?k + 3 < nat ?i \<or> nat ?i + 3 < nat ?k" using k0 i0 by linarith
    then show ?thesis unfolding px'_def by (rule store_color_other)
  qed
  show ?thesis using run ln same other unfolding c_def sc by blast
qed

lemma overlay_row_ok:
  fixes w h xa xb y :: int
  assumes g: "0 \<le> xa" "xa \<le> xb" "xb \<le> w" "0 \<le> y" "y < h"
    and len: "int (length px) = 4 * w * h"
    and sx: "X (Min_pt pb) \<le> xa" "xb \<le> X (Min_pt pb) + Dx (Bounds img)"
    and sy: "0 \<le> y - Y (Min_pt pb)" "y - Y (Min_pt pb) < Dy (Bounds img)"
  shows "\<exists>px'. for_each (overlay_at pf op (4 * w) (Clone img) pb y) [xa .. xb - 1] px = Inr px' \<and>
           length px' = length px \<and>
           (\<forall>x' y'. 0 \<le> x' \<and> x' < w \<and> 0 \<le> y' \<and> y' < h \<longrightarrow>
              color_at px' (nat (y' * (4 * w) + 4 * x')) =
                (if y' = y \<and> xa \<le> x' \<and> x' < xb
                 then blend pf op (color_at px (nat (y' * (4 * w) + 4 * x')))
                        (At img (X (Min_pt (Bounds img)) + (x' - X (Min_pt pb)))
                                (Y (Min_pt (Bounds img)) + (y' - Y (Min_pt pb))))
                 else color_at px (nat (y' * (4 * w) + 4 * x'))))"
proof -
  define I where "I = (\<lambda>(x::int) st. length st = length px \<and>
           (\<forall>x' y'. 0 \<le> x' \<and> x' < w \<and> 0 \<le> y' \<and> y' < h \<longrightarrow>
              color_at st (nat (y' * (4 * w) + 4 * x')) =
                (if y' = y \<and> xa \<le> x' \<and> x' < x
                 then blend pf op (color_at px (nat (y' * (4 * w) + 4 * x')))
                        (At img (X (Min_pt (Bounds img)) + (x' - X (Min_pt pb)))
                                (Y (Min_pt (Bounds img)) + (y' - Y (Min_pt pb))))
                 else color_at px (nat (y' * (4 * w) + 4 * x')))))"
  have step: "\<exists>st'. overlay_at pf op (4 * w) (Clone img) pb y v st = Inr st' \<and> I (v + 1) st'"
    if v: "xa \<le> v" "v \<le> xb - 1" and i: "I v st" for v st
  proof -
    have vx: "0 \<le> v" "v < w" using v g by auto
    have ls: "int (length st) = 4 * w * h" using i len by (simp add: I_def)
    have uv: "0 \<le> v - X (Min_pt pb)" "v - X (Min_pt pb) < Dx (Bounds img)"
      using v sx by auto
    from overlay_at_ok[OF vx g(4,5) ls uv sy, of pf op]
    obtain st' where r: "overlay_at pf op (4 * w) (Clone img) pb y v st = Inr st'"
      and l: "length st' = length st"
      and s: "color_at st' (nat (y * (4 * w) + 4 * v)) =
             blend pf op (color_at st (nat (y * (4 * w) + 4 * v)))
               (At img (X (Min_pt (Bounds img)) + (v - X (Min_pt pb)))
                       (Y (Min_pt (Bounds img)) + (y - Y (Min_pt pb))))"
      and o: "\<And>x' y'. 0 \<le> x' \<Longrightarrow> x' < w \<Longrightarrow> 0 \<le> y' \<Longrightarrow> y' < h \<Longrightarrow> (x', y') \<noteq> (v, y) \<Longrightarrow>
              color_at st' (nat (y' * (4 * w) + 4 * x')) = color_at st (nat (y' * (4 * w) + 4 * x'))"
      by blast
    have old: "color_at st (nat (y' * (4 * w) + 4 * x')) =
                (if y' = y \<and> xa \<le> x' \<and> x' < v
                 then blend pf op (color_at px (nat (y' * (4 * w) + 4 * x')))
                        (At img (X (Min_pt (Bounds img)) + (x' - X (Min_pt pb)))
                                (Y (Min_pt (Bounds img)) + (y' - Y (Min_pt pb))))
                 else color_at px (nat (y' * (4 * w) + 4 * x')))"
      if "0 \<le> x'" "x' < w" "0 \<le> y'" "y' < h" for x' y'
      using i that by (simp add: I_def)
    have "I (v + 1) st'"
      unfolding I_def
    proof (intro conjI allI impI)
      show "length st' = length px" using l i by (simp add: I_def)
    next
      fix x' y' assume b: "0 \<le> x' \<and> x' < w \<and> 0 \<le> y' \<and> y' < h"
      show "color_at st' (nat (y' * (4 * w) + 4 * x')) =
                (if y' = y \<and> xa \<le> x' \<and> x' < v + 1
                 then blend pf op (color_at px (nat (y' * (4 * w) + 4 * x')))
                        (At img (X (Min_pt (Bounds img)) + (x' - X (Min_pt pb)))
                                (Y (Min_pt (Bounds img)) + (y' - Y (Min_pt pb))))
                 else color_at px (nat (y' * (4 * w) + 4 * x')))"
      proof (cases "(x', y') = (v, y)")
        case True
        then show ?thesis using s old[OF vx g(4,5)] v by simp
      next
        case False
        then have "color_at st' (nat (y' * (4 * w) + 4 * x')) = color_at st (nat (y' * (4 * w) + 4 * x'))"
          using o b by blast
        then show ?thesis using old[of x' y'] b False by auto
      qed
    qed
    then show ?thesis using r by blast
  qed
  have "\<exists>st'. for_each (overlay_at pf op (4 * w) (Clone img) pb y) [xa .. xb - 1] px = Inr st' \<and>
          I (xb - 1 + 1) st'"
  proof (rule for_each_upto[where ?lo0.0 = xa and I = I])
    show "xa \<le> xa" by simp
    show "xa \<le> xb - 1 + 1" using g by simp
    show "I xa px" by (auto simp: I_def)
  qed (rule step)
  then show ?thesis by (simp add: I_def)
qed

lemma overlay_rows_ok:
  fixes w h xa xb ya yb :: int
  assumes g: "0 \<le> xa" "xa \<le> xb" "xb \<le> w" "0 \<le> ya" "ya \<le> yb" "yb \<le> h"
    and len: "int (length px) = 4 * w * h"
    and sx: "X (Min_pt pb) \<le> xa" "xb \<le> X (Min_pt pb) + Dx (Bounds img)"
    and sy: "Y (Min_pt pb) \<le> ya" "yb \<le> Y (Min_pt pb) + Dy (Bounds img)"
  shows "\<exists>px'. for_each (\<lambda>y. for_each (overlay_at pf op (4 * w) (Clone img) pb y) [xa .. xb - 1])
                  [ya .. yb - 1] px = Inr px' \<and>
           length px' = length px \<and>
           (\<forall>x' y'. 0 \<le> x' \<and> x' < w \<and> 0 \<le> y' \<and> y' < h \<longrightarrow>
              color_at px' (nat (y' * (4 * w) + 4 * x')) =
                (if ya \<le> y' \<and> y' < yb \<and> xa \<le> x' \<and> x' < xb
                 then blend pf op (color_at px (nat (y' * (4 * w) + 4 * x')))
                        (At img (X (Min_pt (Bounds img)) + (x' - X (Min_pt pb)))
                                (Y (Min_pt (Bounds img)) + (y' - Y (Min_pt pb))))
                 else color_at px (nat (y' * (4 * w) + 4 * x'))))"
proof -
  define I where "I = (\<lambda>(y::int) st. length st = length px \<and>
           (\<forall>x' y'. 0 \<le> x' \<and> x' < w \<and> 0 \<le> y' \<and> y' < h \<longrightarrow>
              color_at st (nat (y' * (4 * w) + 4 * x')) =
                (if ya \<le> y' \<and> y' < y \<and> xa \<le> x' \<and> x' < xb
                 then blend pf op (color_at px (nat (y' * (4 * w) + 4 * x')))
                        (At img (X (Min_pt (Bounds img)) + (x' - X (Min_pt pb)))
                                (Y (Min_pt (Bounds img)) + (y' - Y (Min_pt pb))))
                 else color_at px (nat (y' * (4 * w) + 4 * x')))))"
  have step: "\<exists>st'. for_each (overlay_at pf op (4 * w) (Clone img) pb v) [xa .. xb - 1] st = Inr st' \<and>
                I (v + 1) st'"
    if v: "ya \<le> v" "v \<le> yb - 1" and i: "I v st" for v st
  proof -
    have vy: "0 \<le> v" "v < h" using v g by auto
    have ls: "int (length st) = 4 * w * h" using i len by (simp add: I_def)
    have uv: "0 \<le> v - Y (Min_pt pb)" "v - Y (Min_pt pb) < Dy (Bounds img)"
      using v sy by auto
    from overlay_row_ok[OF g(1,2,3) vy ls sx uv, of pf op]
    obtain st' where r: "for_each (overlay_at pf op (4 * w) (Clone img) pb v) [xa .. xb - 1] st = Inr st'"
      and l: "length st' = length st"
      and s: "\<And>x' y'. 0 \<le> x' \<Longrightarrow> x' < w \<Longrightarrow> 0 \<le> y' \<Longrightarrow> y' < h \<Longrightarrow>
              color_at st' (nat (y' * (4 * w) + 4 * x')) =
                (if y' = v \<and> xa \<le> x' \<and> x' < xb
                 then blend pf op (color_at st (nat (y' * (4 * w) + 4 * x')))
                        (At img (X (Min_pt (Bounds img)) + (x' - X (Min_pt pb)))
                                (Y (Min_pt (Bounds img)) + (y' - Y (Min_pt pb))))
                 else color_at st (nat (y' * (4 * w) + 4 * x')))"
      by blast
    have old: "color_at st (nat (y' * (4 * w) + 4 * x')) =
                (if ya \<le> y' \<and> y' < v \<and> xa \<le> x' \<and> x' < xb
                 then blend pf op (color_at px (nat (y' * (4 * w) + 4 * x')))
                        (At img (X (Min_pt (Bounds img)) + (x' - X (Min_pt pb)))
                                (Y (Min_pt (Bounds img)) + (y' - Y (Min_pt pb))))
                 else color_at px (nat (y' * (4 * w) + 4 * x')))"
      if "0 \<le> x'" "x' < w" "0 \<le> y'" "y' < h" for x' y'
      using i that by (simp add: I_def)
    have "I (v + 1) st'"
      unfolding I_def
    proof (intro conjI allI impI)
      show "length st' = length px" using l i by (simp add: I_def)
    next
      fix x' y' assume b: "0 \<le> x' \<and> x' < w \<and> 0 \<le> y' \<and> y' < h"
      show "color_at st' (nat (y' * (4 * w) + 4 * x')) =
                (if ya \<le> y' \<and> y' < v + 1 \<and> xa \<le> x' \<and> x' < xb
                 then blend pf op (color_at px (nat (y' * (4 * w) + 4 * x')))
                        (At img (X (Min_pt (Bounds img)) + (x' - X (Min_pt pb)))
                                (Y (Min_pt (Bounds img)) + (y' - Y (Min_pt pb))))
                 else color_at px (nat (y' * (4 * w) + 4 * x')))"
      proof (cases "y' = v")
        case True
        then show ?thesis using s[of x' y'] old[of x' y'] b v by simp
      next
        case False
        then show ?thesis using s[of x' y'] old[of x' y'] b by auto
      qed
    qed
    then show ?thesis using r by blast
  qed
  have "\<exists>st'. for_each (\<lambda>y. for_each (overlay_at pf op (4 * w) (Clone img) pb y) [xa .. xb - 1])
                  [ya .. yb - 1] px = Inr st' \<and> I (yb - 1 + 1) st'"
  proof (rule for_each_upto[where ?lo0.0 = ya and I = I])
    show "ya \<le> ya" by simp
    show "ya \<le> yb - 1 + 1" using g by simp
    show "I ya px" by (auto simp: I_def)
  qed (rule step)
  then show ?thesis by (simp add: I_def)
qed

lemma Overlay_result:
  "\<exists>d. Overlay pf bg img pos op = Inr d \<and> Rect_of d = Rect_of (Clone bg) \<and>
       Stride d = Stride (Clone bg) \<and> length (Pix d) = length (Pix (Clone bg)) \<and>
       (\<forall>x y. In_rect (Pt x y) (Rect_of (Clone bg)) \<longrightarrow>
          NRGBAAt d x y =
            Inr (if In_rect (Pt x y) (intersect_bounds bg img pos)
                 then blend pf (clamp_opacity op) (background_pixel bg x y)
                        (overlay_pixel bg img pos x y)
                 else background_pixel bg x y))"
proof (cases "Overlaps (Rect_of (Clone bg)) (paste_bounds bg img pos)")
  case False
  then have "Overlay pf bg img pos op = Inr (Clone bg)"
    by (simp add: Overlay_def paste_bounds_def Let_def)
  then show ?thesis
    using no_overlap_intersect[OF False] Clone_At[of _ _ bg]
    by (simp add: intersect_bounds_def)
next
  case True
  define ib where "ib = intersect_bounds bg img pos"
  define pb where "pb = paste_bounds bg img pos"
  note g = overlap_geometry[OF True, folded ib_def pb_def]
  let ?w = "int (nat (Dx (Bounds bg)))" and ?h = "int (nat (Dy (Bounds bg)))"
  have wh: "?w = Dx (Bounds bg)" "?h = Dy (Bounds bg)" using g by simp_all
  let ?o = "clamp_opacity op"
  have "\<exists>px'. for_each (\<lambda>y. for_each (overlay_at pf ?o (4 * ?w) (Clone img) pb y)
                               [X (Min_pt ib) .. X (Max_pt ib) - 1])
                  [Y (Min_pt ib) .. Y (Max_pt ib) - 1] (Pix (Clone bg)) = Inr px' \<and>
           length px' = length (Pix (Clone bg)) \<and>
           (\<forall>x' y'. 0 \<le> x' \<and> x' < ?w \<and> 0 \<le> y' \<and> y' < ?h \<longrightarrow>
              color_at px' (nat (y' * (4 * ?w) + 4 * x')) =
                (if Y (Min_pt ib) \<le> y' \<and> y' < Y (Max_pt ib) \<and> X (Min_pt ib) \<le> x' \<and> x' < X (Max_pt ib)
                 then blend pf ?o (color_at (Pix (Clone bg)) (nat (y' * (4 * ?w) + 4 * x')))
                        (At img (X (Min_pt (Bounds img)) + (x' - X (Min_pt pb)))
                                (Y (Min_pt (Bounds img)) + (y' - Y (Min_pt pb))))
                 else color_at (Pix (Clone bg)) (nat (y' * (4 * ?w) + 4 * x'))))"
  proof (rule overlay_rows_ok)
    show "int (length (Pix (Clone bg))) = 4 * ?w * ?h" by (simp add: Clone_fields)
  qed (use g wh in auto)
  then obtain d' where run: "for_each (\<lambda>y. for_each (overlay_at pf ?o (4 * ?w) (Clone img) pb y)
                               [X (Min_pt ib) .. X (Max_pt ib) - 1])
                  [Y (Min_pt ib) .. Y (Max_pt ib) - 1] (Pix (Clone bg)) = Inr d'"
    and len: "length d' = length (Pix (Clone bg))"
    and px: "\<And>x' y'. 0 \<le> x' \<Longrightarrow> x' < ?w \<Longrightarrow> 0 \<le> y' \<Longrightarrow> y' < ?h \<Longrightarrow>
              color_at d' (nat (y' * (4 * ?w) + 4 * x')) =
                (if Y (Min_pt ib) \<le> y' \<and> y' < Y (Max_pt ib) \<and> X (Min_pt ib) \<le> x' \<and> x' < X (Max_pt ib)
                 then blend pf ?o (color_at (Pix (Clone bg)) (nat (y' * (4 * ?w) + 4 * x')))
                        (At img (X (Min_pt (Bounds img)) + (x' - X (Min_pt pb)))
                                (Y (Min_pt (Bounds img)) + (y' - Y (Min_pt pb))))
                 else color_at (Pix (Clone bg)) (nat (y' * (4 * ?w) + 4 * x')))"
    by blast
  have P: "Overlay pf bg img pos op = Inr ((Clone bg)\<lparr>Pix := d'\<rparr>)"
  proof -
    have pb_eq: "\<lparr>Min_pt = Sub_pt pos (Min_pt (Bounds bg)),
                  Max_pt = Add_pt (Sub_pt pos (Min_pt (Bounds bg))) (Size_rect (Rect_of (Clone img)))\<rparr> = pb"
      by (simp add: pb_def paste_bounds_def Let_def toNRGBA_def)
    have ib_eq: "Intersect (Rect_of (Clone bg)) pb = ib"
      by (simp add: ib_def pb_def intersect_bounds_def)
    have ov: "Overlaps (Rect_of (Clone bg)) pb" using True by (simp add: pb_def)
    show ?thesis
      unfolding Overlay_def Let_def toNRGBA_def pb_eq ib_eq Clone_fields(1)
      using ov run by (simp only: if_True sum.case)
  qed
  have rd: "NRGBAAt ((Clone bg)\<lparr>Pix := d'\<rparr>) x y =
            Inr (if In_rect (Pt x y) ib
                 then blend pf ?o (background_pixel bg x y) (overlay_pixel bg img pos x y)
                 else background_pixel bg x y)"
    if inr: "In_rect (Pt x y) (Rect_of (Clone bg))" for x y
  proof -
    have xy: "0 \<le> x" "x < ?w" "0 \<le> y" "y < ?h"
      using inr by (auto simp: In_rect_def Clone_fields Pt_def)
    have r: "NRGBAAt ((Clone bg)\<lparr>Pix := d'\<rparr>) x y = Inr (color_at d' (nat (y * (4 * ?w) + 4 * x)))"
      using NRGBAAt_read[of "(Clone bg)\<lparr>Pix := d'\<rparr>" bg x y] len inr by simp
    have bgc: "color_at (Pix (Clone bg)) (nat (y * (4 * ?w) + 4 * x)) = background_pixel bg x y"
      using Clone_color[of x bg y] xy wh by (simp add: background_pixel_def)
    have ii: "In_rect (Pt x y) ib \<longleftrightarrow>
              (Y (Min_pt ib) \<le> y \<and> y < Y (Max_pt ib) \<and> X (Min_pt ib) \<le> x \<and> x < X (Max_pt ib))"
      by (auto simp: In_rect_def Pt_def)
    show ?thesis
      unfolding r px[OF xy] bgc ii overlay_pixel_def pb_def[symmetric] by simp
  qed
  show ?thesis
    using P rd len by (simp add: ib_def)
qed

subsection \<open>Overlay\<close>

lemma in_intersect:
  assumes "In_rect (Pt x y) (intersect_bounds bg img pos)"
  shows "In_rect (Pt x y) (Rect_of (Clone bg))"
    and "In_rect (Pt (X (Min_pt (Bounds img)) + (x - X (Min_pt (paste_bounds bg img pos))))
                     (Y (Min_pt (Bounds img)) + (y - Y (Min_pt (paste_bounds bg img pos)))))
                 (Bounds img)"
proof -
  have ov: "Overlaps (Rect_of (Clone bg)) (paste_bounds bg img pos)"
    using assms no_overlap_intersect[of "Rect_of (Clone bg)" "paste_bounds bg img pos" "Pt x y"]
    by (auto simp: intersect_bounds_def)
  note g = overlap_geometry[OF ov]
  have xy: "X (Min_pt (intersect_bounds bg img pos)) \<le> x" "x < X (Max_pt (intersect_bounds bg img pos))"
    "Y (Min_pt (intersect_bounds bg img pos)) \<le> y" "y < Y (Max_pt (intersect_bounds bg img pos))"
    using assms by (auto simp: In_rect_def Pt_def)
  show "In_rect (Pt x y) (Rect_of (Clone bg))"
    using g xy by (auto simp: In_rect_def Pt_def Clone_fields)
  show "In_rect (Pt (X (Min_pt (Bounds img)) + (x - X (Min_pt (paste_bounds bg img pos))))
                     (Y (Min_pt (Bounds img)) + (y - Y (Min_pt (paste_bounds bg img pos)))))
                 (Bounds img)"
    using g xy by (auto simp: In_rect_def Pt_def Dx_def Dy_def)
qed



text \<open>
  C6: when the overlay image has alpha 255 at every pixel of its bounds, \<open>Overlay\<close>
  with opacity 1 writes at every pixel of the intersection the pixel of the overlay image:
  its three colour channels, and alpha 255. This holds on every platform.
\<close>

theorem Overlay_opaque_full:
  assumes "\<forall>x y. In_rect (Pt x y) (Bounds img) \<longrightarrow> cA (At img x y) = 255"
  shows "\<exists>d. Overlay pf background img pos (Fin 1) = Inr d \<and>
           (\<forall>x y. In_rect (Pt x y) (intersect_bounds background img pos) \<longrightarrow>
              NRGBAAt d x y = Inr (overlay_pixel background img pos x y) \<and>
              cA (overlay_pixel background img pos x y) = 255)"
proof -
  from Overlay_result[of pf background img pos "Fin 1"]
  obtain d where d: "Overlay pf background img pos (Fin 1) = Inr d"
    and p: "\<And>x y. In_rect (Pt x y) (Rect_of (Clone background)) \<Longrightarrow>
          NRGBAAt d x y =
            Inr (if In_rect (Pt x y) (intersect_bounds background img pos)
                 then blend pf (clamp_opacity (Fin 1)) (background_pixel background x y)
                        (overlay_pixel background img pos x y)
                 else background_pixel background x y)"
    by blast
  have "NRGBAAt d x y = Inr (overlay_pixel background img pos x y) \<and>
        cA (overlay_pixel background img pos x y) = 255"
    if i: "In_rect (Pt x y) (intersect_bounds background img pos)" for x y
  proof -
    have a: "cA (overlay_pixel background img pos x y) = 255"
      unfolding overlay_pixel_def using assms in_intersect(2)[OF i] by blast
    show ?thesis
      using p[OF in_intersect(1)[OF i]] i a
      by (simp add: clamp_opacity_Fin blend_opaque_full)
  qed
  then show ?thesis using d by blast
qed

lemma red_small_pixels:
  "In_rect (Pt x y) \<lparr>Min_pt = Pt 0 0, Max_pt = Pt 4 4\<rparr> \<Longrightarrow>
     background_pixel red_image x y = rgba 255 0 0 255"
  "In_rect (Pt x y) \<lparr>Min_pt = Pt 1 1, Max_pt = Pt 3 3\<rparr> \<Longrightarrow>
     overlay_pixel red_image small_image (Pt 1 1) x y = rgba 0 0 255 255"
proof -
  show "In_rect (Pt x y) \<lparr>Min_pt = Pt 0 0, Max_pt = Pt 4 4\<rparr> \<Longrightarrow>
     background_pixel red_image x y = rgba 255 0 0 255"
    by (simp add: background_pixel_def red_image_def solid_def In_rect_def Pt_def)
  show "In_rect (Pt x y) \<lparr>Min_pt = Pt 1 1, Max_pt = Pt 3 3\<rparr> \<Longrightarrow>
     overlay_pixel red_image small_image (Pt 1 1) x y = rgba 0 0 255 255"
    unfolding overlay_pixel_def red_small_geometry
    by (simp add: small_image_def solid_def In_rect_def Pt_def)
qed

theorem Overlay_opaque_full_witness:
  "cA (At small_image 0 0) = 255 \<and> cA (At small_image 1 0) = 255 \<and>
   cA (At small_image 0 1) = 255 \<and> cA (At small_image 1 1) = 255 \<and>
   (\<exists>d. Overlay plain_platform red_image small_image (Pt 1 1) (Fin 1) = Inr d \<and>
        NRGBAAt d 1 1 = Inr (rgba 0 0 255 255))"
proof -
  have h: "\<forall>x y. In_rect (Pt x y) (Bounds small_image) \<longrightarrow> cA (At small_image x y) = 255"
    by (simp add: small_image_def solid_def rgba_def)
  from Overlay_opaque_full[OF h, of plain_platform red_image "Pt 1 1"]
  obtain d where d: "Overlay plain_platform red_image small_image (Pt 1 1) (Fin 1) = Inr d"
    and p: "\<And>x y. In_rect (Pt x y) (intersect_bounds red_image small_image (Pt 1 1)) \<Longrightarrow>
              NRGBAAt d x y = Inr (overlay_pixel red_image small_image (Pt 1 1) x y)"
    by blast
  have i: "In_rect (Pt 1 1) \<lparr>Min_pt = Pt 1 1, Max_pt = Pt 3 3\<rparr>" by (simp add: In_rect_def Pt_def)
  have "NRGBAAt d 1 1 = Inr (rgba 0 0 255 255)"
    using p[of 1 1] i red_small_pixels(2)[OF i] by (simp add: red_small_geometry)
  moreover have "cA (At small_image 0 0) = 255 \<and> cA (At small_image 1 0) = 255 \<and>
      cA (At small_image 0 1) = 255 \<and> cA (At small_image 1 1) = 255"
    by (simp add: small_image_def solid_def rgba_def In_rect_def Pt_def)
  ultimately show ?thesis using d by blast
qed

text \<open>
  C3: the 4 by 4 opaque red background under the 2 by 2 opaque blue overlay at (1,1) with
  opacity 0.5. The result holds (127,0,127,255) at (1,1), and at the other three pixels of
  the rectangle from (1,1) to (3,3), and opaque red at every pixel outside it, on every
  platform.
\<close>

theorem Overlay_half_scenario:
  "\<exists>d. Overlay pf red_image small_image (Pt 1 1) (Fin (1 / 2)) = Inr d \<and>
       Rect_of d = \<lparr>Min_pt = Pt 0 0, Max_pt = Pt 4 4\<rparr> \<and>
       NRGBAAt d 1 1 = Inr (rgba 127 0 127 255) \<and>
       (\<forall>x y. In_rect (Pt x y) (Rect_of d) \<longrightarrow>
          NRGBAAt d x y =
            Inr (if In_rect (Pt x y) \<lparr>Min_pt = Pt 1 1, Max_pt = Pt 3 3\<rparr>
                 then rgba 127 0 127 255 else rgba 255 0 0 255))"
proof -
  from Overlay_result[of pf red_image small_image "Pt 1 1" "Fin (1 / 2)"]
  obtain d where d: "Overlay pf red_image small_image (Pt 1 1) (Fin (1 / 2)) = Inr d"
    and r: "Rect_of d = \<lparr>Min_pt = Pt 0 0, Max_pt = Pt 4 4\<rparr>"
    and p: "\<And>x y. In_rect (Pt x y) \<lparr>Min_pt = Pt 0 0, Max_pt = Pt 4 4\<rparr> \<Longrightarrow>
          NRGBAAt d x y =
            Inr (if In_rect (Pt x y) \<lparr>Min_pt = Pt 1 1, Max_pt = Pt 3 3\<rparr>
                 then blend pf (clamp_opacity (Fin (1 / 2))) (background_pixel red_image x y)
                        (overlay_pixel red_image small_image (Pt 1 1) x y)
                 else background_pixel red_image x y)"
    unfolding red_small_geometry by blast
  have q: "NRGBAAt d x y =
            Inr (if In_rect (Pt x y) \<lparr>Min_pt = Pt 1 1, Max_pt = Pt 3 3\<rparr>
                 then rgba 127 0 127 255 else rgba 255 0 0 255)"
    if i: "In_rect (Pt x y) \<lparr>Min_pt = Pt 0 0, Max_pt = Pt 4 4\<rparr>" for x y
  proof (cases "In_rect (Pt x y) \<lparr>Min_pt = Pt 1 1, Max_pt = Pt 3 3\<rparr>")
    case True
    show ?thesis
      unfolding p[OF i] red_small_pixels(1)[OF i] red_small_pixels(2)[OF True]
      using True by (simp add: clamp_opacity_Fin blend_half)
  next
    case False
    show ?thesis
      unfolding p[OF i] red_small_pixels(1)[OF i] using False by simp
  qed
  have "NRGBAAt d 1 1 = Inr (rgba 127 0 127 255)"
    using q[of 1 1] by (simp add: In_rect_def Pt_def)
  then show ?thesis using d q r by auto
qed

theorem Overlay_half_scenario_witness:
  "\<exists>d. Overlay plain_platform red_image small_image (Pt 1 1) (Fin (1 / 2)) = Inr d \<and>
       NRGBAAt d 1 1 = Inr (rgba 127 0 127 255) \<and>
       NRGBAAt d 2 2 = Inr (rgba 127 0 127 255) \<and>
       NRGBAAt d 0 0 = Inr (rgba 255 0 0 255) \<and>
       NRGBAAt d 3 3 = Inr (rgba 255 0 0 255)"
proof -
  from Overlay_half_scenario[of plain_platform]
  obtain d where d: "Overlay plain_platform red_image small_image (Pt 1 1) (Fin (1 / 2)) = Inr d"
    and r: "Rect_of d = \<lparr>Min_pt = Pt 0 0, Max_pt = Pt 4 4\<rparr>"
    and p: "\<And>x y. In_rect (Pt x y) (Rect_of d) \<Longrightarrow>
          NRGBAAt d x y =
            Inr (if In_rect (Pt x y) \<lparr>Min_pt = Pt 1 1, Max_pt = Pt 3 3\<rparr>
                 then rgba 127 0 127 255 else rgba 255 0 0 255)"
    and q: "NRGBAAt d 1 1 = Inr (rgba 127 0 127 255)"
    by blast
  show ?thesis
    using d q p[of 0 0] p[of 3 3] p[of 2 2] unfolding r by (simp add: In_rect_def Pt_def)
qed

text \<open>The buffer of a result that holds one pixel.\<close>

lemma one_pixel_buffer:
  assumes r: "Rect_of d = \<lparr>Min_pt = Pt 0 0, Max_pt = Pt 1 1\<rparr>" and s: "Stride d = 4"
    and l: "length (Pix d) = 4" and c: "NRGBAAt d 0 0 = Inr c"
  shows "d = \<lparr>Pix = [cR c, cG c, cB c, cA c], Stride = 4,
              Rect_of = \<lparr>Min_pt = Pt 0 0, Max_pt = Pt 1 1\<rparr>\<rparr>"
proof -
  from l obtain b0 b1 b2 b3 where p: "Pix d = [b0, b1, b2, b3]"
    by (auto simp: length_Suc_conv numeral_eq_Suc)
  have "NRGBAAt d 0 0 = Inr (color_at (Pix d) 0)"
    by (simp add: NRGBAAt_def r In_rect_def Pt_def PixOffset_def l)
  then have "color_at [b0, b1, b2, b3] 0 = c" using c p by simp
  then have "Pix d = [cR c, cG c, cB c, cA c]"
    unfolding p by (auto simp: color_at_def)
  then show ?thesis using r s by (cases d) simp
qed

lemma one_pixel_geometry:
  "Rect_of (Clone (one_pixel c)) = \<lparr>Min_pt = Pt 0 0, Max_pt = Pt 1 1\<rparr>"
  "Stride (Clone (one_pixel c)) = 4"
  "length (Pix (Clone (one_pixel c))) = 4"
  "intersect_bounds (one_pixel c) (one_pixel c') (Pt 0 0) = \<lparr>Min_pt = Pt 0 0, Max_pt = Pt 1 1\<rparr>"
  "background_pixel (one_pixel c) 0 0 = c"
  "overlay_pixel (one_pixel c) (one_pixel c') (Pt 0 0) 0 0 = c'"
  by (simp_all add: Clone_fields one_pixel_def solid_def Dx_def Dy_def Pt_def intersect_bounds_def
      paste_bounds_fields Intersect_def Let_def Empty_def background_pixel_def overlay_pixel_def
      In_rect_def)

lemma Overlay_one_pixel:
  "Overlay pf (one_pixel c) (one_pixel c') (Pt 0 0) op =
     Inr \<lparr>Pix = [cR (blend pf (clamp_opacity op) c c'), cG (blend pf (clamp_opacity op) c c'),
                  cB (blend pf (clamp_opacity op) c c'), cA (blend pf (clamp_opacity op) c c')],
          Stride = 4, Rect_of = \<lparr>Min_pt = Pt 0 0, Max_pt = Pt 1 1\<rparr>\<rparr>"
proof -
  from Overlay_result[of pf "one_pixel c" "one_pixel c'" "Pt 0 0" op]
  obtain d where d: "Overlay pf (one_pixel c) (one_pixel c') (Pt 0 0) op = Inr d"
    and r: "Rect_of d = \<lparr>Min_pt = Pt 0 0, Max_pt = Pt 1 1\<rparr>" and s: "Stride d = 4"
    and l: "length (Pix d) = 4"
    and p: "\<And>x y. In_rect (Pt x y) \<lparr>Min_pt = Pt 0 0, Max_pt = Pt 1 1\<rparr> \<Longrightarrow>
          NRGBAAt d x y =
            Inr (if In_rect (Pt x y) \<lparr>Min_pt = Pt 0 0, Max_pt = Pt 1 1\<rparr>
                 then blend pf (clamp_opacity op) (background_pixel (one_pixel c) x y)
                        (overlay_pixel (one_pixel c) (one_pixel c') (Pt 0 0) x y)
                 else background_pixel (one_pixel c) x y)"
    unfolding one_pixel_geometry by blast
  have i: "In_rect (Pt 0 0) \<lparr>Min_pt = Pt 0 0, Max_pt = Pt 1 1\<rparr>" by (simp add: In_rect_def Pt_def)
  have "NRGBAAt d 0 0 = Inr (blend pf (clamp_opacity op) c c')"
    using p[OF i] i by (simp add: one_pixel_geometry)
  from one_pixel_buffer[OF r s l this] show ?thesis using d by simp
qed

lemma Clone_one_pixel:
  "Clone (one_pixel c) =
     \<lparr>Pix = [cR c, cG c, cB c, cA c], Stride = 4, Rect_of = \<lparr>Min_pt = Pt 0 0, Max_pt = Pt 1 1\<rparr>\<rparr>"
proof -
  have i: "In_rect (Pt 0 0) (Rect_of (Clone (one_pixel c)))"
    by (simp add: one_pixel_geometry In_rect_def Pt_def)
  show ?thesis
    using one_pixel_buffer[OF one_pixel_geometry(1,2,3), of c c] Clone_At[OF i]
    by (simp add: one_pixel_geometry)
qed

text \<open>
  C10, amended: for every opacity other than NaN, the alpha of every pixel of the result
  of \<open>Overlay\<close> is at least the alpha of the background pixel.
\<close>

theorem Overlay_alpha_never_decreases:
  assumes "opacity \<noteq> NaN"
  shows "\<exists>d. Overlay pf background img pos opacity = Inr d \<and>
           (\<forall>x y. In_rect (Pt x y) (Rect_of (Clone background)) \<longrightarrow>
              (\<exists>c. NRGBAAt d x y = Inr c \<and> cA (background_pixel background x y) \<le> cA c))"
proof -
  from Overlay_result[of pf background img pos opacity]
  obtain d where d: "Overlay pf background img pos opacity = Inr d"
    and p: "\<And>x y. In_rect (Pt x y) (Rect_of (Clone background)) \<Longrightarrow>
          NRGBAAt d x y =
            Inr (if In_rect (Pt x y) (intersect_bounds background img pos)
                 then blend pf (clamp_opacity opacity) (background_pixel background x y)
                        (overlay_pixel background img pos x y)
                 else background_pixel background x y)"
    by blast
  have "\<exists>c. NRGBAAt d x y = Inr c \<and> cA (background_pixel background x y) \<le> cA c"
    if i: "In_rect (Pt x y) (Rect_of (Clone background))" for x y
    unfolding p[OF i] using blend_alpha_mono[OF assms] by simp
  then show ?thesis using d by blast
qed

theorem Overlay_alpha_never_decreases_witness:
  "Fin (1 / 2) \<noteq> NaN \<and>
   (\<exists>d. Overlay plain_platform red_image small_image (Pt 1 1) (Fin (1 / 2)) = Inr d \<and>
        (\<exists>c. NRGBAAt d 1 1 = Inr c \<and> cA (background_pixel red_image 1 1) \<le> cA c))"
proof -
  have h: "Fin (1 / 2) \<noteq> NaN" by simp
  have i: "In_rect (Pt 1 1) (Rect_of (Clone red_image))"
    by (simp add: red_small_geometry In_rect_def Pt_def)
  from Overlay_alpha_never_decreases[OF h, of plain_platform red_image small_image "Pt 1 1"] i
  show ?thesis using h by blast
qed

text \<open>
  The exclusion of NaN is needed: \<open>math.Max\<close> and \<open>math.Min\<close> hand a NaN on, and
  on a platform that converts NaN to 0 an opaque background pixel under an opaque overlay
  pixel comes out with alpha 0.
\<close>

theorem Overlay_alpha_NaN_counterexample:
  "background_pixel (one_pixel (rgba 255 0 0 255)) 0 0 = rgba 255 0 0 255 \<and>
   Overlay plain_platform (one_pixel (rgba 255 0 0 255)) (one_pixel (rgba 0 0 255 255)) (Pt 0 0) NaN =
     Inr \<lparr>Pix = [0, 0, 0, 0], Stride = 4, Rect_of = \<lparr>Min_pt = Pt 0 0, Max_pt = Pt 1 1\<rparr>\<rparr>"
  by (simp add: Overlay_one_pixel clamp_opacity_NaN blend_NaN plain_platform_def one_pixel_geometry)

lemma clamp_opacity_zero: "is_zero op \<Longrightarrow> clamp_opacity op = Fin 0"
  by (cases op) (simp_all add: clamp_opacity_NZero clamp_opacity_Fin)

text \<open>
  C2, amended: with opacity 0 (either zero), every pixel of the result whose background
  alpha is not 0 is the background pixel, all four channels.
\<close>

theorem Overlay_opacity_zero:
  assumes "is_zero opacity"
  shows "\<exists>d. Overlay pf background img pos opacity = Inr d \<and>
           (\<forall>x y. In_rect (Pt x y) (Rect_of (Clone background)) \<and>
                  cA (background_pixel background x y) \<noteq> 0 \<longrightarrow>
              NRGBAAt d x y = Inr (background_pixel background x y))"
proof -
  from Overlay_result[of pf background img pos opacity]
  obtain d where d: "Overlay pf background img pos opacity = Inr d"
    and p: "\<And>x y. In_rect (Pt x y) (Rect_of (Clone background)) \<Longrightarrow>
          NRGBAAt d x y =
            Inr (if In_rect (Pt x y) (intersect_bounds background img pos)
                 then blend pf (Fin 0) (background_pixel background x y)
                        (overlay_pixel background img pos x y)
                 else background_pixel background x y)"
    unfolding clamp_opacity_zero[OF assms] by blast
  have "NRGBAAt d x y = Inr (background_pixel background x y)"
    if i: "In_rect (Pt x y) (Rect_of (Clone background))"
      and a: "cA (background_pixel background x y) \<noteq> 0" for x y
    unfolding p[OF i] by (simp add: blend_opacity_zero[OF a])
  then show ?thesis using d by blast
qed

theorem Overlay_opacity_zero_witness:
  "is_zero (Fin 0) \<and>
   (\<exists>d. Overlay plain_platform red_image small_image (Pt 1 1) (Fin 0) = Inr d \<and>
        NRGBAAt d 1 1 = Inr (rgba 255 0 0 255))"
proof -
  have h: "is_zero (Fin 0)" by simp
  have i: "In_rect (Pt 1 1) \<lparr>Min_pt = Pt 0 0, Max_pt = Pt 4 4\<rparr>" by (simp add: In_rect_def Pt_def)
  have a: "cA (background_pixel red_image 1 1) \<noteq> 0"
    unfolding red_small_pixels(1)[OF i] by (simp add: rgba_def)
  from Overlay_opacity_zero[OF h, of plain_platform red_image small_image "Pt 1 1"]
  obtain d where d: "Overlay plain_platform red_image small_image (Pt 1 1) (Fin 0) = Inr d"
    and p: "In_rect (Pt 1 1) (Rect_of (Clone red_image)) \<and> cA (background_pixel red_image 1 1) \<noteq> 0
            \<longrightarrow> NRGBAAt d 1 1 = Inr (background_pixel red_image 1 1)"
    by blast
  have "NRGBAAt d 1 1 = Inr (rgba 255 0 0 255)"
    using p i a unfolding red_small_geometry red_small_pixels(1)[OF i] by blast
  then show ?thesis using h d by blast
qed

lemma coefSum_transparent:
  assumes "0 \<le> q" "q \<le> 1" "cA d = 0" "q = 0 \<or> cA s = 0"
  shows "coefSum_of (Fin q) d s = Fin 0" "coef1_of (Fin q) d s = Fin 0"
proof -
  have c2: "coef2_of (Fin q) s = Fin 0"
    using assms byte_val_bounds[of "cA s"]
    by (auto simp: coef2_of_def float64_def byte_val_numeral fmul_Fin fdiv_Fin round_s_0)
  show c1: "coef1_of (Fin q) d s = Fin 0"
    unfolding coef1_of_def c2 using assms
    by (simp add: float64_def byte_val_numeral fsub_Fin fmul_Fin fdiv_Fin round_s_0 round_s_1)
  show "coefSum_of (Fin q) d s = Fin 0"
    unfolding coefSum_of_def c1 c2 by (simp add: fadd_Fin round_s_0)
qed

text \<open>
  The condition on the background alpha is needed: on a background pixel of alpha 0 the
  coefficients are 0/0, and on a platform that converts NaN to 0 the pixel (10,20,30,0)
  comes out as (0,0,0,0).
\<close>

theorem Overlay_opacity_zero_counterexample:
  "Clone (one_pixel (rgba 10 20 30 0)) =
     \<lparr>Pix = [10, 20, 30, 0], Stride = 4, Rect_of = \<lparr>Min_pt = Pt 0 0, Max_pt = Pt 1 1\<rparr>\<rparr> \<and>
   Overlay plain_platform (one_pixel (rgba 10 20 30 0)) (one_pixel (rgba 0 0 255 255)) (Pt 0 0) (Fin 0) =
     Inr \<lparr>Pix = [0, 0, 0, 0], Stride = 4, Rect_of = \<lparr>Min_pt = Pt 0 0, Max_pt = Pt 1 1\<rparr>\<rparr>"
proof -
  have z: "is_zero (coefSum_of (clamp_opacity (Fin 0)) (rgba 10 20 30 0) (rgba 0 0 255 255))"
    by (simp add: clamp_opacity_Fin coefSum_transparent(1) rgba_def)
  show ?thesis
    unfolding Overlay_one_pixel Clone_one_pixel
    using blend_coefSum_zero[OF z, of plain_platform]
    by (simp add: plain_platform_def rgba_def)
qed

text \<open>
  C1, amended: \<open>Overlay\<close> does not special-case a zero \<open>coefSum\<close>. At every pixel
  of the intersection where \<open>coefSum\<close> is zero the normalised coefficient is 0/0, a
  NaN; the background alpha is 0 there; the three colour channels written are the
  conversion of NaN to a byte, which the language leaves to the implementation, and the
  alpha written is 0.
\<close>

theorem Overlay_zero_coefSum:
  "\<exists>d. Overlay pf background img pos opacity = Inr d \<and>
       (\<forall>x y. In_rect (Pt x y) (intersect_bounds background img pos) \<and>
              is_zero (coefSum_of (clamp_opacity opacity) (background_pixel background x y)
                         (overlay_pixel background img pos x y)) \<longrightarrow>
          fdiv (coef1_of (clamp_opacity opacity) (background_pixel background x y)
                  (overlay_pixel background img pos x y))
               (coefSum_of (clamp_opacity opacity) (background_pixel background x y)
                  (overlay_pixel background img pos x y)) = NaN \<and>
          cA (background_pixel background x y) = 0 \<and>
          NRGBAAt d x y =
            Inr \<lparr>cR = conv_oor pf NaN, cG = conv_oor pf NaN, cB = conv_oor pf NaN, cA = 0\<rparr>)"
proof -
  from Overlay_result[of pf background img pos opacity]
  obtain d where d: "Overlay pf background img pos opacity = Inr d"
    and p: "\<And>x y. In_rect (Pt x y) (Rect_of (Clone background)) \<Longrightarrow>
          NRGBAAt d x y =
            Inr (if In_rect (Pt x y) (intersect_bounds background img pos)
                 then blend pf (clamp_opacity opacity) (background_pixel background x y)
                        (overlay_pixel background img pos x y)
                 else background_pixel background x y)"
    by blast
  have "fdiv (coef1_of (clamp_opacity opacity) (background_pixel background x y)
                  (overlay_pixel background img pos x y))
               (coefSum_of (clamp_opacity opacity) (background_pixel background x y)
                  (overlay_pixel background img pos x y)) = NaN \<and>
          cA (background_pixel background x y) = 0 \<and>
          NRGBAAt d x y =
            Inr \<lparr>cR = conv_oor pf NaN, cG = conv_oor pf NaN, cB = conv_oor pf NaN, cA = 0\<rparr>"
    if i: "In_rect (Pt x y) (intersect_bounds background img pos)"
      and z: "is_zero (coefSum_of (clamp_opacity opacity) (background_pixel background x y)
                         (overlay_pixel background img pos x y))" for x y
  proof -
    note c = coefSum_zero[OF z]
    have cs: "coefSum_of (clamp_opacity opacity) (background_pixel background x y)
                  (overlay_pixel background img pos x y) = Fin 0"
      using c by (simp add: coefSum_of_def fadd_Fin round_s_0)
    show ?thesis
      unfolding p[OF in_intersect(1)[OF i]] cs
      using i c blend_coefSum_zero[OF z, of pf] by (simp add: fdiv_zero_zero)
  qed
  then show ?thesis using d by blast
qed

theorem Overlay_zero_coefSum_witness:
  "\<exists>d. Overlay saturating_platform (one_pixel (rgba 10 20 30 0)) (one_pixel (rgba 40 50 60 0))
         (Pt 0 0) (Fin (1 / 2)) = Inr d \<and>
       In_rect (Pt 0 0) (intersect_bounds (one_pixel (rgba 10 20 30 0)) (one_pixel (rgba 40 50 60 0)) (Pt 0 0)) \<and>
       is_zero (coefSum_of (clamp_opacity (Fin (1 / 2))) (rgba 10 20 30 0) (rgba 40 50 60 0)) \<and>
       NRGBAAt d 0 0 = Inr (rgba 255 255 255 0)"
proof -
  let ?b = "one_pixel (rgba 10 20 30 0)" and ?i = "one_pixel (rgba 40 50 60 0)"
  have i: "In_rect (Pt 0 0) (intersect_bounds ?b ?i (Pt 0 0))"
    unfolding one_pixel_geometry by (simp add: In_rect_def Pt_def)
  have z: "is_zero (coefSum_of (clamp_opacity (Fin (1 / 2))) (rgba 10 20 30 0) (rgba 40 50 60 0))"
    by (simp add: clamp_opacity_Fin coefSum_transparent(1) rgba_def)
  from Overlay_zero_coefSum[of saturating_platform ?b ?i "Pt 0 0" "Fin (1 / 2)"]
  obtain d where d: "Overlay saturating_platform ?b ?i (Pt 0 0) (Fin (1 / 2)) = Inr d"
    and p: "In_rect (Pt 0 0) (intersect_bounds ?b ?i (Pt 0 0)) \<and>
            is_zero (coefSum_of (clamp_opacity (Fin (1 / 2))) (background_pixel ?b 0 0)
                       (overlay_pixel ?b ?i (Pt 0 0) 0 0)) \<longrightarrow>
            NRGBAAt d 0 0 =
              Inr \<lparr>cR = conv_oor saturating_platform NaN, cG = conv_oor saturating_platform NaN,
                   cB = conv_oor saturating_platform NaN, cA = 0\<rparr>"
    by blast
  have "NRGBAAt d 0 0 = Inr (rgba 255 255 255 0)"
    using p i z by (simp add: one_pixel_geometry saturating_platform_def rgba_def)
  then show ?thesis using d i z by blast
qed

text \<open>
  The colour channels are not set to 0 by the code: with two transparent pixels and
  opacity 0.5 the sum of the coefficients is 0, the normalised coefficient is NaN, and on
  a platform that converts NaN to 255 the colour channels written are 255.
\<close>

theorem Overlay_zero_coefSum_counterexample:
  "coefSum_of (clamp_opacity (Fin (1 / 2))) (rgba 10 20 30 0) (rgba 40 50 60 0) = Fin 0 \<and>
   fdiv (coef1_of (clamp_opacity (Fin (1 / 2))) (rgba 10 20 30 0) (rgba 40 50 60 0))
        (coefSum_of (clamp_opacity (Fin (1 / 2))) (rgba 10 20 30 0) (rgba 40 50 60 0)) = NaN \<and>
   Overlay saturating_platform (one_pixel (rgba 10 20 30 0)) (one_pixel (rgba 40 50 60 0))
     (Pt 0 0) (Fin (1 / 2)) =
     Inr \<lparr>Pix = [255, 255, 255, 0], Stride = 4, Rect_of = \<lparr>Min_pt = Pt 0 0, Max_pt = Pt 1 1\<rparr>\<rparr>"
proof -
  have c: "coefSum_of (clamp_opacity (Fin (1 / 2))) (rgba 10 20 30 0) (rgba 40 50 60 0) = Fin 0"
    "coef1_of (clamp_opacity (Fin (1 / 2))) (rgba 10 20 30 0) (rgba 40 50 60 0) = Fin 0"
    by (simp_all add: clamp_opacity_Fin coefSum_transparent rgba_def)
  have z: "is_zero (coefSum_of (clamp_opacity (Fin (1 / 2))) (rgba 10 20 30 0) (rgba 40 50 60 0))"
    unfolding c by simp
  show ?thesis
    unfolding Overlay_one_pixel c fdiv_zero_zero
    using blend_coefSum_zero[OF z, of saturating_platform]
    by (simp add: saturating_platform_def)
qed

end
